theory Spec2Isabelle
  imports Main
begin

section \<open>Errors\<close>

text \<open>
  The two error values of the package: \<open>ErrCyclicGraph\<close> (raised by the depth-first
  sorter) and \<open>ErrDependencyOrder\<close> (raised by the layering loops).
\<close>

datatype error = ErrCyclicGraph | ErrDependencyOrder

section \<open>DirectedGraph\<close>

text \<open>
  Modelled from the spec: the type \<open>DirectedGraph\<close> (a node set \<open>graph\<close> and an edge
  index \<open>edges\<close>), whose declaration and methods are missing from the sources. The
  specification describes it as a set of nodes together with a relation on nodes, where
  every node of an edge is a member of the node set. The node set and the relation are kept as duplicate-free lists; the order
  of a list stands for the order in which an enumeration (\<open>Nodes\<close>, \<open>OutgoingEdges\<close>,
  \<open>IncomingEdges\<close>) hands out its elements, so that a statement proved for every graph value
  holds for every enumeration order. Two values with the same nodes and edges in different
  orders are two listings of one graph; calls that enumerate afresh may meet different
  listings.
\<close>

record 'a DirectedGraph =
  nodes :: "'a list"
  edges :: "('a \<times> 'a) list"

text \<open>Modelled from the spec: the invariant of section 3 (no duplicates; edges imply
  node membership).\<close>

definition wf_graph :: "'a DirectedGraph \<Rightarrow> bool" where
  "wf_graph g \<longleftrightarrow>
     distinct (nodes g) \<and> distinct (edges g) \<and>
     (\<forall>e \<in> set (edges g). fst e \<in> set (nodes g) \<and> snd e \<in> set (nodes g))"

text \<open>Modelled from the spec: \<open>NewDirectedGraph\<close>, the empty graph.\<close>

definition NewDirectedGraph :: "'a DirectedGraph" where
  "NewDirectedGraph = \<lparr>nodes = [], edges = []\<rparr>"

text \<open>Modelled from the spec: insertion of a node that is absent.\<close>

definition addNode :: "'a \<Rightarrow> 'a list \<Rightarrow> 'a list" where
  "addNode n ns = (if n \<in> set ns then ns else ns @ [n])"

text \<open>Modelled from the spec: \<open>AddEdge(u, v)\<close> inserts \<open>u\<close> and \<open>v\<close> if absent and adds
  the directed edge from \<open>u\<close> to \<open>v\<close>; adding twice has no further effect.\<close>

definition AddEdge :: "'a DirectedGraph \<Rightarrow> 'a \<Rightarrow> 'a \<Rightarrow> 'a DirectedGraph" where
  "AddEdge g u v =
     g\<lparr>nodes := addNode v (addNode u (nodes g)),
       edges := (if (u, v) \<in> set (edges g) then edges g else edges g @ [(u, v)])\<rparr>"

text \<open>Modelled from the spec: \<open>RemoveEdge(u, v)\<close> removes the edge if present and leaves
  the nodes in place.\<close>

definition RemoveEdge :: "'a DirectedGraph \<Rightarrow> 'a \<Rightarrow> 'a \<Rightarrow> 'a DirectedGraph" where
  "RemoveEdge g u v = g\<lparr>edges := filter (\<lambda>e. e \<noteq> (u, v)) (edges g)\<rparr>"

text \<open>Modelled from the spec: \<open>EdgeExists(u, v)\<close>, membership in the relation.\<close>

definition EdgeExists :: "'a DirectedGraph \<Rightarrow> 'a \<Rightarrow> 'a \<Rightarrow> bool" where
  "EdgeExists g u v \<longleftrightarrow> (u, v) \<in> set (edges g)"

text \<open>Modelled from the spec: \<open>OutgoingEdges(n)\<close> and \<open>IncomingEdges(n)\<close>, the neighbours
  of \<open>n\<close> over one edge, empty when there are none.\<close>

definition OutgoingEdges :: "'a DirectedGraph \<Rightarrow> 'a \<Rightarrow> 'a list" where
  "OutgoingEdges g n = map snd (filter (\<lambda>e. fst e = n) (edges g))"

definition IncomingEdges :: "'a DirectedGraph \<Rightarrow> 'a \<Rightarrow> 'a list" where
  "IncomingEdges g n = map fst (filter (\<lambda>e. snd e = n) (edges g))"

text \<open>Modelled from the spec: \<open>Nodes\<close>, \<open>NodeCount\<close> and \<open>Copy\<close> (a structural clone; with
  immutable values the clone is the value itself).\<close>

definition Nodes :: "'a DirectedGraph \<Rightarrow> 'a list" where
  "Nodes g = nodes g"

definition NodeCount :: "'a DirectedGraph \<Rightarrow> int" where
  "NodeCount g = int (length (nodes g))"

definition Copy :: "'a DirectedGraph \<Rightarrow> 'a DirectedGraph" where
  "Copy g = g"

section \<open>EventGraph (eventgraph.go)\<close>

text \<open>The facade embeds a \<open>DirectedGraph\<close> and forwards each edge operation with the two
  node arguments swapped.\<close>

record 'a EventGraph =
  directed :: "'a DirectedGraph"

definition NewEventGraph :: "'a EventGraph" where
  "NewEventGraph = \<lparr>directed = NewDirectedGraph\<rparr>"

definition EventGraph_Copy :: "'a EventGraph \<Rightarrow> 'a EventGraph" where
  "EventGraph_Copy g = \<lparr>directed = Copy (directed g)\<rparr>"

definition EventGraph_AddEdge :: "'a EventGraph \<Rightarrow> 'a \<Rightarrow> 'a \<Rightarrow> 'a EventGraph" where
  "EventGraph_AddEdge g from to = g\<lparr>directed := AddEdge (directed g) to from\<rparr>"

definition EventGraph_RemoveEdge :: "'a EventGraph \<Rightarrow> 'a \<Rightarrow> 'a \<Rightarrow> 'a EventGraph" where
  "EventGraph_RemoveEdge g from to = g\<lparr>directed := RemoveEdge (directed g) to from\<rparr>"

definition EventGraph_EdgeExists :: "'a EventGraph \<Rightarrow> 'a \<Rightarrow> 'a \<Rightarrow> bool" where
  "EventGraph_EdgeExists g from to \<longleftrightarrow> EdgeExists (directed g) to from"

section \<open>DFSSorter\<close>

text \<open>
  The working state of the sorter: the post-order slice \<open>sorted\<close> and the two mark maps.
  The graph pointer of the struct never changes and is passed as the argument \<open>g\<close>.
\<close>

record 'a DFSSorter =
  sorted_nodes :: "'a list"
  visiting :: "'a \<rightharpoonup> bool"
  discovered :: "'a \<rightharpoonup> bool"

definition init :: "'a DFSSorter" where
  "init = \<lparr>sorted_nodes = [], visiting = Map.empty, discovered = Map.empty\<rparr>"

text \<open>
  \<open>visit\<close> is recursive in the source. The first argument bounds the depth of the
  recursion: \<open>None\<close> means that the bound was reached, which \<open>DFSSort_returns\<close> below
  excludes for the bound that \<open>DFSSorter_Sort\<close> passes (and \<open>DFSSorter_Sort_any_depth\<close>
  shows that a larger bound gives the same result). \<open>visit_each\<close> is the
  \<open>for ... range\<close> loop that visits the nodes of a slice in turn and stops at the first
  error; the source has it twice, over \<open>OutgoingEdges(node)\<close> and over \<open>Nodes()\<close>.
\<close>

fun visit ::
    "nat \<Rightarrow> 'a DirectedGraph \<Rightarrow> 'a \<Rightarrow> 'a DFSSorter \<Rightarrow> (error + 'a DFSSorter) option"
  and visit_each ::
    "nat \<Rightarrow> 'a DirectedGraph \<Rightarrow> 'a list \<Rightarrow> 'a DFSSorter \<Rightarrow> (error + 'a DFSSorter) option"
where
  "visit 0 g node s = None"
| "visit (Suc k) g node s =
     (if discovered s node = Some True then Some (Inr s)
      else if visiting s node = Some True then Some (Inl ErrCyclicGraph)
      else (case visit_each k g (OutgoingEdges g node)
                   (s\<lparr>visiting := (visiting s)(node \<mapsto> True)\<rparr>) of
              None \<Rightarrow> None
            | Some (Inl err) \<Rightarrow> Some (Inl err)
            | Some (Inr s') \<Rightarrow>
                Some (Inr (s'\<lparr>discovered := (discovered s')(node \<mapsto> True),
                              visiting := (visiting s')(node := None),
                              sorted_nodes := sorted_nodes s' @ [node]\<rparr>))))"
| "visit_each k g [] s = Some (Inr s)"
| "visit_each k g (node # rest) s =
     (case visit k g node s of
        None \<Rightarrow> None
      | Some (Inl err) \<Rightarrow> Some (Inl err)
      | Some (Inr s') \<Rightarrow> visit_each k g rest s')"

text \<open>The depth bound: one more than the number of node and edge entries of the graph.\<close>

definition depth_bound :: "'a DirectedGraph \<Rightarrow> nat" where
  "depth_bound g = Suc (length (nodes g) + length (edges g))"

text \<open>\<open>Sort\<close>: visit every node, then reverse the post-order slice.\<close>

definition DFSSorter_Sort :: "'a DirectedGraph \<Rightarrow> (error + 'a list) option" where
  "DFSSorter_Sort g =
     (case visit_each (depth_bound g) g (Nodes g) init of
        None \<Rightarrow> None
      | Some (Inl err) \<Rightarrow> Some (Inl err)
      | Some (Inr s) \<Rightarrow> Some (Inr (rev (sorted_nodes s))))"

definition DFSSort :: "'a DirectedGraph \<Rightarrow> (error + 'a list) option" where
  "DFSSort g = DFSSorter_Sort g"

section \<open>Transitive reduction\<close>

text \<open>
  Modelled from the spec: \<open>RemoveTransitives\<close>, which is missing from the sources.
  Section 4.1 gives it as: compute a topological order by \<open>DFSSort\<close> on the graph being reduced (on a
  cyclic graph the operation fails with the cycle error and removes nothing); process the
  nodes in that order; keep an edge \<open>(u, v)\<close> only if no other neighbour \<open>w\<close> of \<open>u\<close>
  (\<open>w \<noteq> v\<close>) has \<open>v\<close> reachable from \<open>w\<close>. The graph is changed in place, so each test reads
  the edges that remain at that moment.
\<close>

definition implied_edge :: "'a DirectedGraph \<Rightarrow> 'a \<Rightarrow> 'a \<Rightarrow> bool" where
  "implied_edge g u v \<longleftrightarrow>
     (\<exists>w \<in> set (OutgoingEdges g u). w \<noteq> v \<and> (w, v) \<in> (set (edges g))\<^sup>+)"

text \<open>Modelled from the spec: one edge of \<open>u\<close> is dropped when a longer path implies it.\<close>

definition dropImplied :: "'a DirectedGraph \<Rightarrow> 'a \<Rightarrow> 'a \<Rightarrow> 'a DirectedGraph" where
  "dropImplied g u v = (if implied_edge g u v then RemoveEdge g u v else g)"

text \<open>Modelled from the spec: the outgoing edges of one node are tested in turn.\<close>

definition reduceNode :: "'a DirectedGraph \<Rightarrow> 'a \<Rightarrow> 'a DirectedGraph" where
  "reduceNode g u = fold (\<lambda>v g'. dropImplied g' u v) (OutgoingEdges g u) g"

text \<open>Modelled from the spec: the whole reduction. The graph is changed in place, so the
  result pairs the outcome (\<open>Some err\<close> is the failure on a cyclic graph, which removes
  nothing) with the graph after the call.\<close>

definition RemoveTransitives ::
  "'a DirectedGraph \<Rightarrow> (error option \<times> 'a DirectedGraph) option" where
  "RemoveTransitives g =
     (case DFSSort g of
        None \<Rightarrow> None
      | Some (Inl err) \<Rightarrow> Some (Some err, g)
      | Some (Inr order) \<Rightarrow> Some (None, fold (\<lambda>u g'. reduceNode g' u) order g))"

section \<open>CoffmanGrahamSorter and OptimizedCoffmanGrahamSorter\<close>

text \<open>
  Both sorter structs have the same five fields. \<open>levels\<close> is a Go map (absent keys are
  \<open>None\<close>); layer indices are Go \<open>int\<close>s, which start at \<open>-1\<close> and are bounded by the
  number of layers, so they are modelled as \<open>int\<close>. The local variables \<open>layers\<close>,
  \<open>levels\<close>, \<open>level\<close> and \<open>nodes\<close> of the methods are written \<open>lyrs\<close>, \<open>lvls\<close>, \<open>lvl\<close>
  and \<open>order\<close>, since the field names are taken by the record.
\<close>

record 'a CoffmanGrahamSorter =
  graph :: "'a DirectedGraph"
  width :: int
  layers :: "'a list list"
  levels :: "'a \<rightharpoonup> int"
  level :: int

type_synonym 'a OptimizedCoffmanGrahamSorter = "'a CoffmanGrahamSorter"

definition NewCoffmanGrahamSorter :: "'a DirectedGraph \<Rightarrow> int \<Rightarrow> 'a CoffmanGrahamSorter" where
  "NewCoffmanGrahamSorter g w = \<lparr>graph = g, width = w, layers = [], levels = Map.empty, level = 0\<rparr>"

definition NewOptimizedCoffmanGrahamSorter ::
  "'a DirectedGraph \<Rightarrow> int \<Rightarrow> 'a OptimizedCoffmanGrahamSorter" where
  "NewOptimizedCoffmanGrahamSorter g w =
     \<lparr>graph = g, width = w, layers = [], levels = Map.empty, level = 0\<rparr>"

text \<open>
  The loop over \<open>reduced.IncomingEdges(node)\<close>: the largest recorded level of a
  predecessor, starting from \<open>-1\<close>, or the dependency-order error at the first predecessor
  without a recorded level.
\<close>

fun dependantLevelLoop :: "('a \<rightharpoonup> int) \<Rightarrow> 'a list \<Rightarrow> int \<Rightarrow> error + int" where
  "dependantLevelLoop lvls [] dependantLevel = Inr dependantLevel"
| "dependantLevelLoop lvls (dependant # rest) dependantLevel =
     (case lvls dependant of
        None \<Rightarrow> Inl ErrDependencyOrder
      | Some lvl \<Rightarrow>
          dependantLevelLoop lvls rest (if lvl > dependantLevel then lvl else dependantLevel))"

text \<open>
  The loop \<open>for i := dependantLevel + 1; i < len(layers); i++\<close> with its \<open>break\<close>: the first
  index from \<open>i\<close> on whose layer is shorter than the width, and \<open>-1\<close> when there is none.
  The index is never negative, because \<open>dependantLevel\<close> is at least \<open>-1\<close>.
\<close>

function findLayer :: "int \<Rightarrow> 'a list list \<Rightarrow> int \<Rightarrow> int" where
  "findLayer w lyrs i =
     (if i < int (length lyrs)
      then (if int (length (lyrs ! nat i)) < w then i else findLayer w lyrs (i + 1))
      else -1)"
  by pat_completeness auto
termination
  by (relation "measure (\<lambda>(w, lyrs, i). nat (int (length lyrs) - i))") auto

declare findLayer.simps [simp del]

text \<open>
  The rest of the loop body: search for a layer after \<open>dependantLevel\<close>, append a fresh layer
  when none was found, and append the node to the chosen layer. The result is the new
  \<open>layers\<close> and the chosen \<open>level\<close>.
\<close>

definition assignLayer :: "int \<Rightarrow> 'a list list \<Rightarrow> int \<Rightarrow> 'a \<Rightarrow> 'a list list \<times> int" where
  "assignLayer w lyrs dependantLevel node =
     (let found = (if dependantLevel < int (length lyrs) - 1
                   then findLayer w lyrs (dependantLevel + 1) else -1);
          lyrs1 = (if found = -1 then lyrs @ [[]] else lyrs);
          lvl = (if found = -1 then int (length lyrs1) - 1 else found)
      in (lyrs1[nat lvl := lyrs1 ! nat lvl @ [node]], lvl))"

text \<open>
  The node loop of \<open>CoffmanGrahamSorter.Sort\<close>. A node with a recorded level is skipped.
  The result is the error, if any, with \<open>layers\<close> and \<open>levels\<close> as they stand when the loop
  is left. (The source also prints a line for every node it assigns; standard output is not
  modelled.)
\<close>

fun sortLoop ::
  "'a DirectedGraph \<Rightarrow> int \<Rightarrow> 'a list \<Rightarrow> 'a list list \<Rightarrow> ('a \<rightharpoonup> int) \<Rightarrow>
     error option \<times> 'a list list \<times> ('a \<rightharpoonup> int)" where
  "sortLoop reduced w [] lyrs lvls = (None, lyrs, lvls)"
| "sortLoop reduced w (node # rest) lyrs lvls =
     (case lvls node of
        Some _ \<Rightarrow> sortLoop reduced w rest lyrs lvls
      | None \<Rightarrow>
          (case dependantLevelLoop lvls (IncomingEdges reduced node) (-1) of
             Inl err \<Rightarrow> (Some err, lyrs, lvls)
           | Inr dependantLevel \<Rightarrow>
               (case assignLayer w lyrs dependantLevel node of
                  (lyrs', lvl) \<Rightarrow> sortLoop reduced w rest lyrs' (lvls(node \<mapsto> lvl)))))"

text \<open>
  \<open>CoffmanGrahamSorter.Sort\<close>. The method copies the graph, reduces the copy (the outcome
  of \<open>RemoveTransitives\<close> is not inspected) and sorts it. The result pairs what the method
  returns with the sorter after the call. \<open>levels\<close> is a reference to the sorter's map, so every assignment of the
  loop is a write to \<open>s.levels\<close>. The variable \<open>level\<close> declared in the loop body shadows the
  one read from \<open>s.level\<close> before the loop, so the final \<open>s.level = level\<close> stores the value
  read at the start. When the loop fails, \<open>s.layers\<close> keeps its old slice header; writes
  through a shared backing array are not modelled on that path.
\<close>

definition Sort ::
  "'a CoffmanGrahamSorter \<Rightarrow> ((error + 'a list list) \<times> 'a CoffmanGrahamSorter) option" where
  "Sort s =
     (case RemoveTransitives (Copy (graph s)) of
        None \<Rightarrow> None
      | Some (_, reduced) \<Rightarrow>
          (case DFSSort reduced of
             None \<Rightarrow> None
           | Some (Inl err) \<Rightarrow> Some (Inl err, s)
           | Some (Inr order) \<Rightarrow>
               (let level0 = level s in
                (case sortLoop reduced (width s) order (layers s) (levels s) of
                   (Some err, lyrs', lvls') \<Rightarrow> Some (Inl err, s\<lparr>levels := lvls'\<rparr>)
                 | (None, lyrs', lvls') \<Rightarrow>
                     Some (Inr lyrs', s\<lparr>levels := lvls', level := level0, layers := lyrs'\<rparr>)))))"

text \<open>\<open>CoffmanGrahamSorter.OrigSort\<close>: fresh \<open>layers\<close> and \<open>levels\<close>, no skipping, and no
  write to the sorter.\<close>

fun origSortLoop ::
  "'a DirectedGraph \<Rightarrow> int \<Rightarrow> 'a list \<Rightarrow> 'a list list \<Rightarrow> ('a \<rightharpoonup> int) \<Rightarrow> error + 'a list list" where
  "origSortLoop reduced w [] lyrs lvls = Inr lyrs"
| "origSortLoop reduced w (node # rest) lyrs lvls =
     (case dependantLevelLoop lvls (IncomingEdges reduced node) (-1) of
        Inl err \<Rightarrow> Inl err
      | Inr dependantLevel \<Rightarrow>
          (case assignLayer w lyrs dependantLevel node of
             (lyrs', lvl) \<Rightarrow> origSortLoop reduced w rest lyrs' (lvls(node \<mapsto> lvl))))"

definition OrigSort :: "'a CoffmanGrahamSorter \<Rightarrow> (error + 'a list list) option" where
  "OrigSort s =
     (case RemoveTransitives (Copy (graph s)) of
        None \<Rightarrow> None
      | Some (_, reduced) \<Rightarrow>
          (case DFSSort reduced of
             None \<Rightarrow> None
           | Some (Inl err) \<Rightarrow> Some (Inl err)
           | Some (Inr order) \<Rightarrow> Some (origSortLoop reduced (width s) order [] Map.empty)))"

text \<open>
  The node loop of \<open>OptimizedCoffmanGrahamSorter.EventSort\<close> (eventsort.go): the loop of
  \<open>Sort\<close> with the running maximum \<open>maxLevel\<close> of the levels assigned in this call.
\<close>

fun eventSortLoop ::
  "'a DirectedGraph \<Rightarrow> int \<Rightarrow> 'a list \<Rightarrow> 'a list list \<Rightarrow> ('a \<rightharpoonup> int) \<Rightarrow> int \<Rightarrow>
     error option \<times> 'a list list \<times> ('a \<rightharpoonup> int) \<times> int" where
  "eventSortLoop reduced w [] lyrs lvls maxLevel = (None, lyrs, lvls, maxLevel)"
| "eventSortLoop reduced w (node # rest) lyrs lvls maxLevel =
     (case lvls node of
        Some _ \<Rightarrow> eventSortLoop reduced w rest lyrs lvls maxLevel
      | None \<Rightarrow>
          (case dependantLevelLoop lvls (IncomingEdges reduced node) (-1) of
             Inl err \<Rightarrow> (Some err, lyrs, lvls, maxLevel)
           | Inr dependantLevel \<Rightarrow>
               (case assignLayer w lyrs dependantLevel node of
                  (lyrs', lvl) \<Rightarrow>
                    eventSortLoop reduced w rest lyrs' (lvls(node \<mapsto> lvl))
                      (if maxLevel = -1 \<or> maxLevel < lvl then lvl else maxLevel))))"

definition EventSort ::
  "'a OptimizedCoffmanGrahamSorter \<Rightarrow>
     ((error + 'a list list) \<times> 'a OptimizedCoffmanGrahamSorter) option" where
  "EventSort s =
     (case RemoveTransitives (Copy (graph s)) of
        None \<Rightarrow> None
      | Some (_, reduced) \<Rightarrow>
          (case DFSSort reduced of
             None \<Rightarrow> None
           | Some (Inl err) \<Rightarrow> Some (Inl err, s)
           | Some (Inr order) \<Rightarrow>
               (case eventSortLoop reduced (width s) order (layers s) (levels s) (-1) of
                  (Some err, lyrs', lvls', maxLevel) \<Rightarrow> Some (Inl err, s\<lparr>levels := lvls'\<rparr>)
                | (None, lyrs', lvls', maxLevel) \<Rightarrow>
                    Some (Inr lyrs', s\<lparr>level := maxLevel, layers := lyrs', levels := lvls'\<rparr>))))"

text \<open>\<open>DirectedGraph.CoffmanGrahamSort\<close>: a new sorter, sorted once; the sorter is dropped.\<close>

definition CoffmanGrahamSort :: "'a DirectedGraph \<Rightarrow> int \<Rightarrow> (error + 'a list list) option" where
  "CoffmanGrahamSort g w = map_option fst (Sort (NewCoffmanGrahamSorter g w))"


section \<open>Predicates used in the statements and proofs\<close>

text \<open>The nodes that carry the temporary mark and the permanent mark.\<close>

definition Vs :: "'a DFSSorter \<Rightarrow> 'a set" where
  "Vs s = {n. visiting s n = Some True}"

definition Ds :: "'a DFSSorter \<Rightarrow> 'a set" where
  "Ds s = {n. discovered s n = Some True}"

text \<open>
  A list is in topological order for \<open>g\<close> when no node occurs twice and every node reached
  over one outgoing edge of an entry occurs later in the list.
\<close>

fun topo_list :: "'a DirectedGraph \<Rightarrow> 'a list \<Rightarrow> bool" where
  "topo_list g [] \<longleftrightarrow> True"
| "topo_list g (n # ns) \<longleftrightarrow> n \<notin> set ns \<and> set (OutgoingEdges g n) \<subseteq> set ns \<and> topo_list g ns"

text \<open>The invariant of the sorter: the reversed post-order slice is in topological order,
  holds exactly the permanently marked nodes, and no node carries both marks.\<close>

definition dfs_inv :: "'a DirectedGraph \<Rightarrow> 'a DFSSorter \<Rightarrow> bool" where
  "dfs_inv g s \<longleftrightarrow>
     topo_list g (rev (sorted_nodes s)) \<and> set (sorted_nodes s) = Ds s \<and> Ds s \<inter> Vs s = {}"

text \<open>Every node that a traversal of \<open>g\<close> can meet.\<close>

definition universe :: "'a DirectedGraph \<Rightarrow> 'a set" where
  "universe g = set (nodes g) \<union> snd ` set (edges g)"

text \<open>The scenario of the specification, with the nodes A, B, C, D written 1, 2, 3, 4:
  edges A to B, B to C and A to C, and the free node D.\<close>

definition scenario_graph :: "nat DirectedGraph" where
  "scenario_graph = \<lparr>nodes = [1, 2, 3, 4], edges = [(1, 2), (2, 3), (1, 3)]\<rparr>"

text \<open>
  One graph shrinks to another when the nodes are the same, no edge is new, a
  duplicate-free edge list stays duplicate-free, and, if the first graph has no cycle,
  the same nodes are reachable from the same nodes.
\<close>

definition shrinks :: "'a DirectedGraph \<Rightarrow> 'a DirectedGraph \<Rightarrow> bool" where
  "shrinks g g' \<longleftrightarrow>
     nodes g' = nodes g \<and> set (edges g') \<subseteq> set (edges g) \<and>
     (distinct (edges g) \<longrightarrow> distinct (edges g')) \<and>
     (acyclic (set (edges g)) \<longrightarrow> (set (edges g'))\<^sup>* = (set (edges g))\<^sup>*)"

text \<open>Every predecessor of a node of the list is in \<open>seen\<close> or stands earlier in the list.\<close>

fun preds_before :: "'a DirectedGraph \<Rightarrow> 'a set \<Rightarrow> 'a list \<Rightarrow> bool" where
  "preds_before g seen [] \<longleftrightarrow> True"
| "preds_before g seen (n # ns) \<longleftrightarrow>
     set (IncomingEdges g n) \<subseteq> seen \<and> preds_before g (insert n seen) ns"

text \<open>
  The invariant of the layering loop over a reduced graph: no layer is longer than the
  width, every recorded level is the index of a layer that holds the node, and an edge
  into a node with a recorded level starts at a node with a smaller recorded level.
\<close>

definition layering_inv ::
  "'a DirectedGraph \<Rightarrow> int \<Rightarrow> 'a list list \<Rightarrow> ('a \<rightharpoonup> int) \<Rightarrow> bool" where
  "layering_inv reduced w lyrs lvls \<longleftrightarrow>
     (\<forall>x \<in> set lyrs. int (length x) \<le> w) \<and>
     (\<forall>n l. lvls n = Some l \<longrightarrow> 0 \<le> l \<and> l < int (length lyrs) \<and> n \<in> set (lyrs ! nat l)) \<and>
     (\<forall>u v. (u, v) \<in> set (edges reduced) \<longrightarrow> v \<in> dom lvls \<longrightarrow>
        (\<exists>i j. lvls u = Some i \<and> lvls v = Some j \<and> i < j))"

text \<open>Further example graphs: the cycle scenario of the specification (A to B and B to A)
  and a chain of two nodes.\<close>

definition cycle_graph :: "nat DirectedGraph" where
  "cycle_graph = \<lparr>nodes = [1, 2], edges = [(1, 2), (2, 1)]\<rparr>"

definition chain_graph :: "nat DirectedGraph" where
  "chain_graph = \<lparr>nodes = [1, 2], edges = [(1, 2)]\<rparr>"

text \<open>A sorter that has sorted the scenario graph once with width 2, and the scenario
  graph extended by an edge to a new node.\<close>

definition sorted_once :: "nat CoffmanGrahamSorter" where
  "sorted_once = snd (the (Sort (NewCoffmanGrahamSorter scenario_graph 2)))"

definition extended_graph :: "nat DirectedGraph" where
  "extended_graph = AddEdge scenario_graph 3 5"



definition diamond_a :: "nat DirectedGraph" where
  "diamond_a = \<lparr>nodes = [1, 2, 3, 4], edges = [(1, 2), (1, 3), (2, 4), (3, 4)]\<rparr>"

definition diamond_b :: "nat DirectedGraph" where
  "diamond_b = \<lparr>nodes = [1, 2, 3, 4], edges = [(1, 2), (1, 3), (3, 4), (2, 4)]\<rparr>"

section \<open>The graph operations keep the invariant\<close>

lemma wf_NewDirectedGraph: "wf_graph NewDirectedGraph"
  by (simp add: wf_graph_def NewDirectedGraph_def)

lemma wf_AddEdge: "wf_graph g \<Longrightarrow> wf_graph (AddEdge g u v)"
  by (auto simp: wf_graph_def AddEdge_def addNode_def)

lemma wf_RemoveEdge: "wf_graph g \<Longrightarrow> wf_graph (RemoveEdge g u v)"
  by (auto simp: wf_graph_def RemoveEdge_def)

section \<open>The depth-first sorter: marks, invariant and results\<close>

lemma Vs_mark: "Vs (s\<lparr>visiting := (visiting s)(n \<mapsto> True)\<rparr>) = insert n (Vs s)"
  by (auto simp: Vs_def)

lemma Ds_mark: "Ds (s\<lparr>visiting := m\<rparr>) = Ds s"
  by (simp add: Ds_def)

lemma Vs_finish:
  "Vs (s\<lparr>discovered := d, visiting := (visiting s)(n := None), sorted_nodes := xs\<rparr>) = Vs s - {n}"
  by (auto simp: Vs_def)

lemma Ds_finish:
  "Ds (s\<lparr>discovered := (discovered s)(n \<mapsto> True), visiting := m, sorted_nodes := xs\<rparr>) = insert n (Ds s)"
  by (auto simp: Ds_def)

lemma in_OutgoingEdges: "v \<in> set (OutgoingEdges g u) \<longleftrightarrow> (u, v) \<in> set (edges g)"
  by (force simp: OutgoingEdges_def)

lemma in_IncomingEdges: "u \<in> set (IncomingEdges g v) \<longleftrightarrow> (u, v) \<in> set (edges g)"
  by (force simp: IncomingEdges_def)

lemma visit_keeps_visiting:
  "visit k g n s = Some (Inr s') \<Longrightarrow> Vs s' = Vs s"
  "visit_each k g ns s = Some (Inr s') \<Longrightarrow> Vs s' = Vs s"
proof (induction k g n s and k g ns s arbitrary: s' and s' rule: visit_visit_each.induct)
  case (1 g node s)
  then show ?case by simp
next
  case (2 k g node s)
  show ?case
  proof (cases "discovered s node = Some True")
    case True
    with "2.prems" show ?thesis by simp
  next
    case False
    then have nv: "visiting s node \<noteq> Some True"
      using "2.prems" by (auto split: if_splits)
    then obtain s2 where
      r: "visit_each k g (OutgoingEdges g node) (s\<lparr>visiting := (visiting s)(node \<mapsto> True)\<rparr>) = Some (Inr s2)"
      and s': "s' = s2\<lparr>discovered := (discovered s2)(node \<mapsto> True),
                      visiting := (visiting s2)(node := None),
                      sorted_nodes := sorted_nodes s2 @ [node]\<rparr>"
      using "2.prems" False by (auto split: option.splits sum.splits)
    from "2.IH"[OF False nv r] have "Vs s2 = insert node (Vs s)"
      by (simp add: Vs_mark)
    moreover have "node \<notin> Vs s" using nv by (simp add: Vs_def)
    ultimately show ?thesis by (simp add: s' Vs_finish)
  qed
next
  case (3 k g s)
  then show ?case by simp
next
  case (4 k g node rest s)
  from "4.prems" obtain s1 where
    a: "visit k g node s = Some (Inr s1)" and b: "visit_each k g rest s1 = Some (Inr s')"
    by (auto split: option.splits sum.splits)
  from "4.IH"(1)[OF a] "4.IH"(2)[OF a refl b] show ?case by simp
qed

lemma visit_outcome:
  "visit (Suc k) g node s = Some (Inr s') \<Longrightarrow> discovered s node \<noteq> Some True \<Longrightarrow>
     visiting s node \<noteq> Some True \<and>
     (\<exists>s2. visit_each k g (OutgoingEdges g node) (s\<lparr>visiting := (visiting s)(node \<mapsto> True)\<rparr>) = Some (Inr s2) \<and>
           s' = s2\<lparr>discovered := (discovered s2)(node \<mapsto> True),
                   visiting := (visiting s2)(node := None),
                   sorted_nodes := sorted_nodes s2 @ [node]\<rparr>)"
  by (auto split: if_splits option.splits sum.splits)

lemma visit_each_outcome:
  "visit_each k g (node # rest) s = Some (Inr s') \<Longrightarrow>
     \<exists>s1. visit k g node s = Some (Inr s1) \<and> visit_each k g rest s1 = Some (Inr s')"
  by (auto split: option.splits sum.splits)

lemma visit_invariant:
  "visit k g n s = Some (Inr s') \<Longrightarrow> dfs_inv g s \<Longrightarrow>
     dfs_inv g s' \<and> Ds s \<subseteq> Ds s' \<and> n \<in> Ds s' \<and> Ds s' \<subseteq> Ds s \<union> insert n (snd ` set (edges g))"
  "visit_each k g ns s = Some (Inr s') \<Longrightarrow> dfs_inv g s \<Longrightarrow>
     dfs_inv g s' \<and> Ds s \<subseteq> Ds s' \<and> set ns \<subseteq> Ds s' \<and> Ds s' \<subseteq> Ds s \<union> set ns \<union> snd ` set (edges g)"
proof (induction k g n s and k g ns s arbitrary: s' and s' rule: visit_visit_each.induct)
  case (1 g node s)
  then show ?case by simp
next
  case (2 k g node s)
  show ?case
  proof (cases "discovered s node = Some True")
    case True
    with "2.prems" show ?thesis by (auto simp: Ds_def)
  next
    case False
    let ?s1 = "s\<lparr>visiting := (visiting s)(node \<mapsto> True)\<rparr>"
    from visit_outcome[OF "2.prems"(1) False] obtain s2 where
      nv: "visiting s node \<noteq> Some True"
      and r: "visit_each k g (OutgoingEdges g node) ?s1 = Some (Inr s2)"
      and s': "s' = s2\<lparr>discovered := (discovered s2)(node \<mapsto> True),
                      visiting := (visiting s2)(node := None),
                      sorted_nodes := sorted_nodes s2 @ [node]\<rparr>"
      by blast
    have nd: "node \<notin> Ds s" using False by (simp add: Ds_def)
    have inv1: "dfs_inv g ?s1"
      using "2.prems"(2) nd by (simp add: dfs_inv_def Vs_mark Ds_mark)
    from "2.IH"[OF False nv r inv1] have
      inv2: "dfs_inv g s2" and mono: "Ds s \<subseteq> Ds s2"
      and out: "set (OutgoingEdges g node) \<subseteq> Ds s2"
      and bound: "Ds s2 \<subseteq> Ds s \<union> set (OutgoingEdges g node) \<union> snd ` set (edges g)"
      by (simp_all add: Ds_mark)
    have "Vs s2 = insert node (Vs s)"
      using visit_keeps_visiting(2)[OF r] by (simp add: Vs_mark)
    with inv2 have fresh: "node \<notin> Ds s2" by (auto simp: dfs_inv_def)
    have outE: "set (OutgoingEdges g node) \<subseteq> snd ` set (edges g)"
      by (force simp: in_OutgoingEdges)
    have "dfs_inv g s'"
      using inv2 fresh out by (auto simp: dfs_inv_def s' Ds_finish Vs_finish)
    moreover have "Ds s' = insert node (Ds s2)" by (simp add: s' Ds_finish)
    ultimately show ?thesis using mono bound outE by auto
  qed
next
  case (3 k g s)
  then show ?case by simp
next
  case (4 k g node rest s)
  from visit_each_outcome[OF "4.prems"(1)] obtain s1 where
    a: "visit k g node s = Some (Inr s1)" and b: "visit_each k g rest s1 = Some (Inr s')"
    by blast
  from "4.IH"(1)[OF a "4.prems"(2)] have
    i1: "dfs_inv g s1" "Ds s \<subseteq> Ds s1" "node \<in> Ds s1"
        "Ds s1 \<subseteq> Ds s \<union> insert node (snd ` set (edges g))"
    by simp_all
  from "4.IH"(2)[OF a refl b i1(1)] have
    i2: "dfs_inv g s'" "Ds s1 \<subseteq> Ds s'" "set rest \<subseteq> Ds s'"
        "Ds s' \<subseteq> Ds s1 \<union> set rest \<union> snd ` set (edges g)"
    by simp_all
  from i1 i2 show ?case by auto
qed

lemma visit_error_kind:
  "visit k g n s = Some (Inl e) \<Longrightarrow> e = ErrCyclicGraph"
  "visit_each k g ns s = Some (Inl e) \<Longrightarrow> e = ErrCyclicGraph"
  by (induction k g n s and k g ns s rule: visit_visit_each.induct)
     (auto split: if_splits option.splits sum.splits)

lemma visit_acyclic:
  "visit k g n s = Some (Inl e) \<Longrightarrow> acyclic (set (edges g)) \<Longrightarrow>
     (\<forall>m \<in> Vs s. (m, n) \<in> (set (edges g))\<^sup>+) \<Longrightarrow> False"
  "visit_each k g ns s = Some (Inl e) \<Longrightarrow> acyclic (set (edges g)) \<Longrightarrow>
     (\<forall>m \<in> Vs s. \<forall>n \<in> set ns. (m, n) \<in> (set (edges g))\<^sup>+) \<Longrightarrow> False"
proof (induction k g n s and k g ns s arbitrary: e and e rule: visit_visit_each.induct)
  case (1 g node s)
  then show ?case by simp
next
  case (2 k g node s)
  let ?E = "set (edges g)"
  let ?s1 = "s\<lparr>visiting := (visiting s)(node \<mapsto> True)\<rparr>"
  have nd: "discovered s node \<noteq> Some True"
    using "2.prems"(1) by (auto split: if_splits)
  have nv: "visiting s node \<noteq> Some True"
  proof
    assume "visiting s node = Some True"
    then have "node \<in> Vs s" by (simp add: Vs_def)
    with "2.prems"(3) have "(node, node) \<in> ?E\<^sup>+" by blast
    with "2.prems"(2) show False by (simp add: acyclic_def)
  qed
  from "2.prems"(1) nd nv have
    r: "visit_each k g (OutgoingEdges g node) ?s1 = Some (Inl e)"
    by (auto split: option.splits sum.splits)
  have "\<forall>m \<in> Vs ?s1. \<forall>c \<in> set (OutgoingEdges g node). (m, c) \<in> ?E\<^sup>+"
  proof (intro ballI)
    fix m c assume m: "m \<in> Vs ?s1" and c: "c \<in> set (OutgoingEdges g node)"
    from c have e: "(node, c) \<in> ?E" by (simp add: in_OutgoingEdges)
    from m have "m = node \<or> m \<in> Vs s" by (simp add: Vs_mark)
    then show "(m, c) \<in> ?E\<^sup>+"
    proof
      assume "m = node" with e show ?thesis by auto
    next
      assume "m \<in> Vs s"
      with "2.prems"(3) have "(m, node) \<in> ?E\<^sup>+" by blast
      then show ?thesis using e by (rule trancl_into_trancl)
    qed
  qed
  with "2.IH"[OF nd nv r "2.prems"(2)] show ?case by blast
next
  case (3 k g s)
  then show ?case by simp
next
  case (4 k g node rest s)
  show ?case
  proof (cases "visit k g node s")
    case None
    with "4.prems"(1) show ?thesis by simp
  next
    case (Some r)
    show ?thesis
    proof (cases r)
      case (Inl e')
      with Some have "visit k g node s = Some (Inl e')" by simp
      from "4.IH"(1)[OF this "4.prems"(2)] "4.prems"(3) show ?thesis by auto
    next
      case (Inr s1)
      with Some "4.prems"(1) have b: "visit_each k g rest s1 = Some (Inl e)" by simp
      have "Vs s1 = Vs s" using visit_keeps_visiting(1)[OF Some[unfolded Inr]] .
      with "4.IH"(2)[OF Some Inr b "4.prems"(2)] "4.prems"(3) show ?thesis by auto
    qed
  qed
qed

lemma visit_returns:
  "card (universe g - Vs s) < k \<Longrightarrow> n \<in> universe g \<Longrightarrow> visit k g n s \<noteq> None"
  "card (universe g - Vs s) < k \<Longrightarrow> set ns \<subseteq> universe g \<Longrightarrow> visit_each k g ns s \<noteq> None"
proof (induction k g n s and k g ns s rule: visit_visit_each.induct)
  case (1 g node s)
  then show ?case by simp
next
  case (2 k g node s)
  let ?s1 = "s\<lparr>visiting := (visiting s)(node \<mapsto> True)\<rparr>"
  show ?case
  proof (cases "discovered s node = Some True \<or> visiting s node = Some True")
    case True
    then show ?thesis by auto
  next
    case False
    then have nd: "discovered s node \<noteq> Some True" and nv: "visiting s node \<noteq> Some True"
      by simp_all
    have fin: "finite (universe g - Vs s)" by (simp add: universe_def)
    have mem: "node \<in> universe g - Vs s" using "2.prems"(2) nv by (simp add: Vs_def)
    have "universe g - Vs ?s1 = (universe g - Vs s) - {node}" by (auto simp: Vs_mark)
    then have "card (universe g - Vs ?s1) < card (universe g - Vs s)"
      using card_Diff1_less[OF fin mem] by simp
    with "2.prems"(1) have c: "card (universe g - Vs ?s1) < k" by simp
    have "set (OutgoingEdges g node) \<subseteq> universe g"
      by (force simp: universe_def in_OutgoingEdges)
    from "2.IH"[OF nd nv c this] nd nv show ?thesis
      by (auto split: option.splits sum.splits)
  qed
next
  case (3 k g s)
  then show ?case by simp
next
  case (4 k g node rest s)
  from "4.prems" have a: "visit k g node s \<noteq> None" using "4.IH"(1) by simp
  show ?case
  proof (cases "visit k g node s")
    case None
    with a show ?thesis by simp
  next
    case (Some r)
    show ?thesis
    proof (cases r)
      case (Inl e)
      with Some show ?thesis by simp
    next
      case (Inr s1)
      have "Vs s1 = Vs s" using visit_keeps_visiting(1)[OF Some[unfolded Inr]] .
      with "4.IH"(2)[OF Some Inr] "4.prems" Some Inr show ?thesis by simp
    qed
  qed
qed

lemma card_universe: "card (universe g) < depth_bound g"
proof -
  have "card (universe g) \<le> card (set (nodes g)) + card (snd ` set (edges g))"
    by (simp add: universe_def card_Un_le)
  also have "\<dots> \<le> length (nodes g) + length (edges g)"
    by (meson add_mono card_image_le card_length le_trans List.finite_set)
  finally show ?thesis by (simp add: depth_bound_def)
qed

lemma Vs_init: "Vs init = {}"
  by (simp add: Vs_def init_def)

lemma Ds_init: "Ds init = {}"
  by (simp add: Ds_def init_def)

lemma dfs_inv_init: "dfs_inv g init"
  by (simp add: dfs_inv_def Vs_init Ds_init) (simp add: init_def)

lemma visit_nodes_returns: "visit_each (depth_bound g) g (Nodes g) init \<noteq> None"
proof (rule visit_returns(2))
  have "card (universe g - Vs init) \<le> card (universe g)"
    by (simp add: Vs_init)
  with card_universe[of g] show "card (universe g - Vs init) < depth_bound g" by simp
  show "set (Nodes g) \<subseteq> universe g" by (simp add: Nodes_def universe_def)
qed

text \<open>A result does not depend on the depth bound: every larger bound gives the same.\<close>

lemma visit_deeper:
  "visit k g n s = Some r \<Longrightarrow> visit (Suc k) g n s = Some r"
  "visit_each k g ns s = Some r \<Longrightarrow> visit_each (Suc k) g ns s = Some r"
proof (induction k g n s and k g ns s arbitrary: r and r rule: visit_visit_each.induct)
  case (1 g node s)
  then show ?case by simp
next
  case (2 k g node s)
  show ?case
  proof (cases "discovered s node = Some True \<or> visiting s node = Some True")
    case True
    with "2.prems" show ?thesis by auto
  next
    case False
    then have nd: "discovered s node \<noteq> Some True" and nv: "visiting s node \<noteq> Some True"
      by simp_all
    let ?s1 = "s\<lparr>visiting := (visiting s)(node \<mapsto> True)\<rparr>"
    from "2.prems" nd nv obtain x where
      x: "visit_each k g (OutgoingEdges g node) ?s1 = Some x"
      by (auto split: option.splits)
    from "2.IH"[OF nd nv x] have "visit_each (Suc k) g (OutgoingEdges g node) ?s1 = Some x" .
    with "2.prems" x nd nv show ?thesis by simp
  qed
next
  case (3 k g s)
  then show ?case by simp
next
  case (4 k g node rest s)
  from "4.prems" obtain y where y: "visit k g node s = Some y"
    by (auto split: option.splits)
  from "4.IH"(1)[OF y] have y': "visit (Suc k) g node s = Some y" .
  show ?case
  proof (cases y)
    case (Inl e)
    with y "4.prems" have "r = Inl e" by simp
    with y' Inl show ?thesis by (simp del: visit.simps)
  next
    case (Inr s1)
    with y "4.prems" have "visit_each k g rest s1 = Some r" by simp
    from "4.IH"(2)[OF y Inr this] y' Inr show ?thesis by (simp del: visit.simps)
  qed
qed

lemma visit_each_any_depth:
  "visit_each k g ns s = Some r \<Longrightarrow> visit_each (k + j) g ns s = Some r"
  by (induction j) (simp_all add: visit_deeper(2))

lemma DFSSorter_Sort_any_depth:
  assumes "depth_bound g \<le> k"
  shows "visit_each k g (Nodes g) init = visit_each (depth_bound g) g (Nodes g) init"
proof -
  from visit_nodes_returns[of g] obtain r where
    r: "visit_each (depth_bound g) g (Nodes g) init = Some r" by auto
  from visit_each_any_depth[OF r, of "k - depth_bound g"] assms r show ?thesis by simp
qed

lemma DFSSort_returns: "DFSSort g \<noteq> None"
  using visit_nodes_returns[of g]
  by (auto simp: DFSSort_def DFSSorter_Sort_def split: option.splits sum.splits)

lemma DFSSort_error_kind: "DFSSort g = Some (Inl e) \<Longrightarrow> e = ErrCyclicGraph"
  by (auto simp: DFSSort_def DFSSorter_Sort_def split: option.splits sum.splits
           dest: visit_error_kind(2))

lemma DFSSort_success:
  assumes "DFSSort g = Some (Inr ord)"
  shows "topo_list g ord" and "set (nodes g) \<subseteq> set ord" and "set ord \<subseteq> universe g"
proof -
  from assms obtain s where
    r: "visit_each (depth_bound g) g (Nodes g) init = Some (Inr s)"
    and ord: "ord = rev (sorted_nodes s)"
    by (auto simp: DFSSort_def DFSSorter_Sort_def split: option.splits sum.splits)
  from visit_invariant(2)[OF r dfs_inv_init] have
    inv: "dfs_inv g s" and a: "set (Nodes g) \<subseteq> Ds s"
    and b: "Ds s \<subseteq> Ds init \<union> set (Nodes g) \<union> snd ` set (edges g)"
    by simp_all
  from inv show "topo_list g ord" by (simp add: dfs_inv_def ord)
  from inv have "set ord = Ds s" by (simp add: dfs_inv_def ord)
  with a show "set (nodes g) \<subseteq> set ord" by (simp add: Nodes_def)
  from \<open>set ord = Ds s\<close> b show "set ord \<subseteq> universe g"
    by (simp add: Ds_init Nodes_def universe_def)
qed

lemma topo_list_distinct: "topo_list g ns \<Longrightarrow> distinct ns"
  by (induction ns) auto

lemma topo_list_suffix: "topo_list g (xs @ ys) \<Longrightarrow> topo_list g ys"
  by (induction xs) auto

lemma topo_list_edge_later:
  assumes "topo_list g (xs @ u # ys)" and "(u, v) \<in> set (edges g)"
  shows "v \<in> set ys"
proof -
  from assms(1) have "topo_list g (u # ys)" by (rule topo_list_suffix)
  with assms(2) show ?thesis by (auto simp: in_OutgoingEdges[symmetric])
qed

lemma topo_list_path_later:
  assumes "(u, v) \<in> (set (edges g))\<^sup>+" and "topo_list g (xs @ u # ys)"
  shows "v \<in> set ys"
  using assms
proof (induction rule: trancl_induct)
  case (base w)
  then show ?case by (blast intro: topo_list_edge_later)
next
  case (step w z)
  then have "w \<in> set ys" by simp
  then obtain ys1 ys2 where ys: "ys = ys1 @ w # ys2" by (auto simp: in_set_conv_decomp)
  with step.prems have "topo_list g ((xs @ u # ys1) @ w # ys2)" by simp
  from topo_list_edge_later[OF this step.hyps(2)] show ?case by (simp add: ys)
qed

lemma topo_list_no_cycle:
  assumes "topo_list g ns" and "u \<in> set ns"
  shows "(u, u) \<notin> (set (edges g))\<^sup>+"
proof
  assume c: "(u, u) \<in> (set (edges g))\<^sup>+"
  from assms(2) obtain xs ys where ns: "ns = xs @ u # ys" by (auto simp: in_set_conv_decomp)
  from topo_list_path_later[OF c assms(1)[unfolded ns]] have "u \<in> set ys" .
  moreover from assms(1) have "distinct ns" by (rule topo_list_distinct)
  ultimately show False by (simp add: ns)
qed

lemma topo_list_closed:
  assumes "(u, v) \<in> (set (edges g))\<^sup>*" and "topo_list g ns" and "u \<in> set ns"
  shows "v \<in> set ns"
  using assms
proof (induction rule: rtrancl_induct)
  case base
  then show ?case by simp
next
  case (step w z)
  then have "w \<in> set ns" by simp
  then obtain xs ys where ns: "ns = xs @ w # ys" by (auto simp: in_set_conv_decomp)
  from topo_list_edge_later[OF step.prems(1)[unfolded ns] step.hyps(2)]
  show ?case by (simp add: ns)
qed

lemma topo_list_positions:
  assumes "topo_list g ns" and "u \<in> set ns" and "(u, v) \<in> set (edges g)"
  shows "\<exists>i j. i < j \<and> j < length ns \<and> ns ! i = u \<and> ns ! j = v"
proof -
  from assms(2) obtain xs ys where ns: "ns = xs @ u # ys" by (auto simp: in_set_conv_decomp)
  from topo_list_edge_later[OF assms(1)[unfolded ns] assms(3)] obtain j
    where j: "j < length ys" "ys ! j = v" by (auto simp: in_set_conv_nth)
  have "ns ! length xs = u" by (simp add: ns)
  moreover have "ns ! (length xs + Suc j) = v"
    using j unfolding ns by (simp add: nth_append)
  moreover have "length xs + Suc j < length ns" using j by (simp add: ns)
  moreover have "length xs < length xs + Suc j" by simp
  ultimately show ?thesis by blast
qed

lemma wf_graph_universe: "wf_graph g \<Longrightarrow> universe g = set (nodes g)"
  by (auto simp: wf_graph_def universe_def)

lemma DFSSort_acyclic:
  assumes "acyclic (set (edges g))"
  shows "\<exists>ord. DFSSort g = Some (Inr ord)"
proof -
  have "\<And>e. visit_each (depth_bound g) g (Nodes g) init \<noteq> Some (Inl e)"
    using visit_acyclic(2)[OF _ assms, of "depth_bound g" "Nodes g" init]
    by (auto simp: Vs_init)
  with visit_nodes_returns[of g] show ?thesis
    by (auto simp: DFSSort_def DFSSorter_Sort_def split: option.splits sum.splits)
qed

lemma DFSSort_cyclic:
  assumes "n \<in> set (Nodes g)" and "(n, c) \<in> (set (edges g))\<^sup>*" and "(c, c) \<in> (set (edges g))\<^sup>+"
  shows "DFSSort g = Some (Inl ErrCyclicGraph)"
proof (cases "DFSSort g")
  case None
  with DFSSort_returns show ?thesis by blast
next
  case (Some r)
  show ?thesis
  proof (cases r)
    case (Inl e)
    with Some DFSSort_error_kind show ?thesis by blast
  next
    case (Inr ord)
    with Some have ok: "DFSSort g = Some (Inr ord)" by simp
    from DFSSort_success(2)[OF ok] assms(1) have "n \<in> set ord" by (auto simp: Nodes_def)
    from topo_list_closed[OF assms(2) DFSSort_success(1)[OF ok] this] have "c \<in> set ord" .
    from topo_list_no_cycle[OF DFSSort_success(1)[OF ok] this] assms(3) show ?thesis by simp
  qed
qed

lemma cyclic_wf_graph_reachable:
  assumes "wf_graph g" and "\<not> acyclic (set (edges g))"
  shows "\<exists>c. c \<in> set (Nodes g) \<and> (c, c) \<in> (set (edges g))\<^sup>* \<and> (c, c) \<in> (set (edges g))\<^sup>+"
proof -
  from assms(2) obtain c where c: "(c, c) \<in> (set (edges g))\<^sup>+" by (auto simp: acyclic_def)
  then obtain z where "(c, z) \<in> set (edges g)" by (auto dest: tranclD)
  with assms(1) have "c \<in> set (Nodes g)" by (auto simp: wf_graph_def Nodes_def)
  with c show ?thesis by auto
qed

section \<open>Transitive reduction: what each step keeps\<close>

lemma shrinks_refl: "shrinks g g"
  by (simp add: shrinks_def)

lemma shrinks_trans: "shrinks g g1 \<Longrightarrow> shrinks g1 g2 \<Longrightarrow> shrinks g g2"
  unfolding shrinks_def by (auto dest: acyclic_subset)

lemma edges_RemoveEdge: "set (edges (RemoveEdge g u v)) = set (edges g) - {(u, v)}"
  by (auto simp: RemoveEdge_def)

lemma nodes_RemoveEdge: "nodes (RemoveEdge g u v) = nodes g"
  by (simp add: RemoveEdge_def)

lemma distinct_RemoveEdge: "distinct (edges g) \<Longrightarrow> distinct (edges (RemoveEdge g u v))"
  by (simp add: RemoveEdge_def)

lemma implied_edgeD:
  "implied_edge g u v \<Longrightarrow>
     \<exists>w. (u, w) \<in> set (edges g) \<and> w \<noteq> v \<and> (w, v) \<in> (set (edges g))\<^sup>+"
  by (auto simp: implied_edge_def in_OutgoingEdges)

lemma implied_edge_mono:
  assumes "implied_edge g' u v" and "set (edges g') \<subseteq> set (edges g)"
  shows "implied_edge g u v"
proof -
  from implied_edgeD[OF assms(1)] obtain w where
    w: "(u, w) \<in> set (edges g')" "w \<noteq> v" "(w, v) \<in> (set (edges g'))\<^sup>+" by blast
  from w(3) assms(2) have "(w, v) \<in> (set (edges g))\<^sup>+" by (rule trancl_mono)
  moreover from w(1) assms(2) have "w \<in> set (OutgoingEdges g u)"
    by (auto simp: in_OutgoingEdges)
  ultimately show ?thesis using w(2) unfolding implied_edge_def by blast
qed

lemma detour_avoids_edge:
  assumes ac: "acyclic E" and uw: "(u, w) \<in> E" and p: "(w, x) \<in> E\<^sup>*"
  shows "(w, x) \<in> (E - {(u, v)})\<^sup>*"
  using p
proof (induction rule: rtrancl_induct)
  case base
  show ?case by simp
next
  case (step y z)
  have "(y, z) \<noteq> (u, v)"
  proof
    assume "(y, z) = (u, v)"
    with step.hyps(1) have "(w, u) \<in> E\<^sup>*" by simp
    with uw have "(u, u) \<in> E\<^sup>+" by (rule rtrancl_into_trancl2)
    with ac show False by (simp add: acyclic_def)
  qed
  with step.hyps(2) have "(y, z) \<in> E - {(u, v)}" by simp
  with step.IH show ?case by (rule rtrancl_into_rtrancl)
qed

lemma drop_implied_keeps_reach:
  assumes ac: "acyclic E" and uw: "(u, w) \<in> E" and ne: "w \<noteq> v" and p: "(w, v) \<in> E\<^sup>+"
  shows "(E - {(u, v)})\<^sup>* = E\<^sup>*"
proof
  show "(E - {(u, v)})\<^sup>* \<subseteq> E\<^sup>*" by (rule rtrancl_mono) blast
next
  let ?E' = "E - {(u, v)}"
  from p have "(w, v) \<in> E\<^sup>*" by (rule trancl_into_rtrancl)
  from detour_avoids_edge[OF ac uw this] have "(w, v) \<in> ?E'\<^sup>*" .
  moreover from uw ne have "(u, w) \<in> ?E'" by simp
  ultimately have uv: "(u, v) \<in> ?E'\<^sup>*" by (rule converse_rtrancl_into_rtrancl[rotated])
  have "E \<subseteq> ?E'\<^sup>*"
  proof
    fix e assume "e \<in> E"
    then show "e \<in> ?E'\<^sup>*" using uv by (cases "e = (u, v)") auto
  qed
  then show "E\<^sup>* \<subseteq> ?E'\<^sup>*" by (rule rtrancl_subset_rtrancl)
qed

lemma shrinks_dropImplied: "shrinks g (dropImplied g u v)"
proof (cases "implied_edge g u v")
  case False
  then show ?thesis by (simp add: dropImplied_def shrinks_refl)
next
  case True
  from implied_edgeD[OF True] obtain w where
    w: "(u, w) \<in> set (edges g)" "w \<noteq> v" "(w, v) \<in> (set (edges g))\<^sup>+" by blast
  have "acyclic (set (edges g)) \<Longrightarrow>
          (set (edges (RemoveEdge g u v)))\<^sup>* = (set (edges g))\<^sup>*"
    using drop_implied_keeps_reach[OF _ w] by (simp add: edges_RemoveEdge)
  with True show ?thesis
    by (simp add: dropImplied_def shrinks_def edges_RemoveEdge nodes_RemoveEdge distinct_RemoveEdge)
qed

lemma shrinks_fold_dropImplied: "shrinks g (fold (\<lambda>v g'. dropImplied g' u v) vs g)"
proof (induction vs arbitrary: g)
  case Nil
  show ?case by (simp add: shrinks_refl)
next
  case (Cons v vs)
  from shrinks_dropImplied[of g u v] Cons[of "dropImplied g u v"] show ?case
    by (auto intro: shrinks_trans)
qed

lemma shrinks_reduceNode: "shrinks g (reduceNode g u)"
  by (simp add: reduceNode_def shrinks_fold_dropImplied)

lemma shrinks_fold_reduceNode: "shrinks g (fold (\<lambda>u g'. reduceNode g' u) us g)"
proof (induction us arbitrary: g)
  case Nil
  show ?case by (simp add: shrinks_refl)
next
  case (Cons u us)
  from shrinks_reduceNode[of g u] Cons[of "reduceNode g u"] show ?case
    by (auto intro: shrinks_trans)
qed

lemma fold_dropImplied_clean:
  assumes "v \<in> set vs" and "(u, v) \<in> set (edges (fold (\<lambda>v g'. dropImplied g' u v) vs g))"
  shows "\<not> implied_edge (fold (\<lambda>v g'. dropImplied g' u v) vs g) u v"
  using assms
proof (induction vs arbitrary: g)
  case Nil
  then show ?case by simp
next
  case (Cons x vs)
  let ?g1 = "dropImplied g u x"
  let ?g' = "fold (\<lambda>v g'. dropImplied g' u v) vs ?g1"
  have sub: "set (edges ?g') \<subseteq> set (edges ?g1)"
    using shrinks_fold_dropImplied[of ?g1 u vs] by (simp add: shrinks_def)
  show ?case
  proof (cases "v \<in> set vs")
    case True
    with Cons.IH[of ?g1] Cons.prems(2) show ?thesis by simp
  next
    case False
    with Cons.prems(1) have vx: "v = x" by simp
    show ?thesis
    proof (cases "implied_edge g u x")
      case True
      then have "(u, x) \<notin> set (edges ?g1)" by (simp add: dropImplied_def edges_RemoveEdge)
      with sub Cons.prems(2) vx show ?thesis by auto
    next
      case no: False
      then have g1: "?g1 = g" by (simp add: dropImplied_def)
      have "\<not> implied_edge ?g' u x"
        using implied_edge_mono[of ?g' u x g] sub no by (auto simp: g1)
      then show ?thesis by (simp add: vx)
    qed
  qed
qed

lemma reduceNode_clean:
  assumes "(u, v) \<in> set (edges (reduceNode g u))"
  shows "\<not> implied_edge (reduceNode g u) u v"
proof -
  have "set (edges (reduceNode g u)) \<subseteq> set (edges g)"
    using shrinks_reduceNode[of g u] by (simp add: shrinks_def)
  with assms have "v \<in> set (OutgoingEdges g u)" by (auto simp: in_OutgoingEdges)
  from fold_dropImplied_clean[OF this] assms show ?thesis by (simp add: reduceNode_def)
qed

lemma fold_reduceNode_clean:
  assumes "u \<in> set us" and "(u, v) \<in> set (edges (fold (\<lambda>u g'. reduceNode g' u) us g))"
  shows "\<not> implied_edge (fold (\<lambda>u g'. reduceNode g' u) us g) u v"
  using assms
proof (induction us arbitrary: g)
  case Nil
  then show ?case by simp
next
  case (Cons x us)
  let ?g1 = "reduceNode g x"
  let ?g' = "fold (\<lambda>u g'. reduceNode g' u) us ?g1"
  have sub: "set (edges ?g') \<subseteq> set (edges ?g1)"
    using shrinks_fold_reduceNode[of ?g1 us] by (simp add: shrinks_def)
  show ?case
  proof (cases "u \<in> set us")
    case True
    with Cons.IH[of ?g1] Cons.prems(2) show ?thesis by simp
  next
    case False
    with Cons.prems(1) have ux: "u = x" by simp
    from Cons.prems(2) sub have "(x, v) \<in> set (edges ?g1)" by (auto simp: ux)
    from reduceNode_clean[OF this] have "\<not> implied_edge ?g1 x v" .
    with implied_edge_mono[of ?g' x v ?g1] sub show ?thesis by (auto simp: ux)
  qed
qed

lemma fold_dropImplied_idle:
  assumes "\<And>v. v \<in> set vs \<Longrightarrow> \<not> implied_edge g u v"
  shows "fold (\<lambda>v g'. dropImplied g' u v) vs g = g"
  using assms by (induction vs) (simp_all add: dropImplied_def)

lemma reduceNode_idle:
  assumes "\<And>v. (u, v) \<in> set (edges g) \<Longrightarrow> \<not> implied_edge g u v"
  shows "reduceNode g u = g"
  unfolding reduceNode_def
  by (rule fold_dropImplied_idle) (simp add: assms in_OutgoingEdges)

lemma fold_reduceNode_idle:
  assumes "\<And>u v. (u, v) \<in> set (edges g) \<Longrightarrow> \<not> implied_edge g u v"
  shows "fold (\<lambda>u g'. reduceNode g' u) us g = g"
  by (induction us) (simp_all add: reduceNode_idle assms)

lemma wf_graph_sources: "wf_graph g \<Longrightarrow> (u, v) \<in> set (edges g) \<Longrightarrow> u \<in> set (nodes g)"
  by (auto simp: wf_graph_def)

lemma wf_graph_targets: "wf_graph g \<Longrightarrow> (u, v) \<in> set (edges g) \<Longrightarrow> v \<in> set (nodes g)"
  by (auto simp: wf_graph_def)

lemma shrinks_wf: "shrinks g g' \<Longrightarrow> wf_graph g \<Longrightarrow> wf_graph g'"
  unfolding shrinks_def wf_graph_def by auto

lemma shrinks_acyclic: "shrinks g g' \<Longrightarrow> acyclic (set (edges g)) \<Longrightarrow> acyclic (set (edges g'))"
  unfolding shrinks_def by (auto dest: acyclic_subset)

lemma DFSSort_success_acyclic:
  assumes "wf_graph g" and "DFSSort g = Some (Inr ord)"
  shows "acyclic (set (edges g))"
  unfolding acyclic_def
proof (intro allI notI)
  fix c assume c: "(c, c) \<in> (set (edges g))\<^sup>+"
  then obtain z where "(c, z) \<in> set (edges g)" by (auto dest: tranclD)
  with assms(1) have "c \<in> set (nodes g)" by (rule wf_graph_sources)
  with DFSSort_success(2)[OF assms(2)] have "c \<in> set ord" by auto
  from topo_list_no_cycle[OF DFSSort_success(1)[OF assms(2)] this] c show False by simp
qed

lemma DFSSort_order_nodes:
  assumes "wf_graph g" and "DFSSort g = Some (Inr ord)"
  shows "set ord = set (nodes g)"
  using DFSSort_success(2,3)[OF assms(2)] wf_graph_universe[OF assms(1)] by auto

lemma RemoveTransitives_returns:
  "\<exists>err g'. RemoveTransitives g = Some (err, g')"
  using DFSSort_returns[of g]
  by (auto simp: RemoveTransitives_def split: option.splits sum.splits)

lemma RemoveTransitives_failure:
  "RemoveTransitives g = Some (Some e, g') \<Longrightarrow> g' = g \<and> DFSSort g = Some (Inl e)"
  by (auto simp: RemoveTransitives_def split: option.splits sum.splits)

lemma RemoveTransitives_cyclic:
  "DFSSort g = Some (Inl e) \<Longrightarrow> RemoveTransitives g = Some (Some e, g)"
  by (simp add: RemoveTransitives_def)

lemma RemoveTransitives_success:
  assumes "RemoveTransitives g = Some (None, g')"
  shows "\<exists>order. DFSSort g = Some (Inr order) \<and> g' = fold (\<lambda>u g'. reduceNode g' u) order g"
  using assms by (auto simp: RemoveTransitives_def split: option.splits sum.splits)

lemma RemoveTransitives_shrinks:
  assumes "RemoveTransitives g = Some (err, g')"
  shows "shrinks g g'"
proof (cases err)
  case None
  with RemoveTransitives_success assms show ?thesis
    by (metis shrinks_fold_reduceNode)
next
  case (Some e)
  with RemoveTransitives_failure assms show ?thesis
    by (metis shrinks_refl)
qed

lemma RemoveTransitives_clean:
  assumes "wf_graph g" and "RemoveTransitives g = Some (None, g')"
    and "(u, v) \<in> set (edges g')"
  shows "\<not> implied_edge g' u v"
proof -
  from RemoveTransitives_success[OF assms(2)] obtain order where
    o: "DFSSort g = Some (Inr order)" and g': "g' = fold (\<lambda>u g'. reduceNode g' u) order g"
    by blast
  have "set (edges g') \<subseteq> set (edges g)"
    using RemoveTransitives_shrinks[OF assms(2)] by (simp add: shrinks_def)
  with assms(3) have "(u, v) \<in> set (edges g)" by auto
  with assms(1) have "u \<in> set (nodes g)" by (rule wf_graph_sources)
  then have "u \<in> set order" by (simp add: DFSSort_order_nodes[OF assms(1) o])
  from fold_reduceNode_clean[OF this] assms(3) show ?thesis by (simp add: g')
qed

lemma RemoveTransitives_dag:
  assumes "acyclic (set (edges g))"
  shows "\<exists>g'. RemoveTransitives g = Some (None, g')"
  using DFSSort_acyclic[OF assms] by (auto simp: RemoveTransitives_def)

lemma RemoveTransitives_reach:
  assumes "wf_graph g" and "RemoveTransitives g = Some (err, g')"
  shows "(set (edges g'))\<^sup>* = (set (edges g))\<^sup>*"
proof (cases err)
  case (Some e)
  with RemoveTransitives_failure assms(2) show ?thesis by blast
next
  case None
  with RemoveTransitives_success assms(2) obtain order where "DFSSort g = Some (Inr order)"
    by blast
  from DFSSort_success_acyclic[OF assms(1) this] RemoveTransitives_shrinks[OF assms(2)]
  show ?thesis by (simp add: shrinks_def)
qed

section \<open>The layering loops\<close>

lemma topo_list_preds_earlier:
  assumes t: "topo_list g (xs @ n # ys)" and wf: "wf_graph g"
    and ord: "set (nodes g) \<subseteq> set (xs @ n # ys)"
  shows "set (IncomingEdges g n) \<subseteq> set xs"
proof
  fix u assume "u \<in> set (IncomingEdges g n)"
  then have e: "(u, n) \<in> set (edges g)" by (simp add: in_IncomingEdges)
  from t have d: "distinct (xs @ n # ys)" by (rule topo_list_distinct)
  from wf_graph_sources[OF wf e] ord have "u \<in> set xs \<or> u = n \<or> u \<in> set ys" by auto
  then show "u \<in> set xs"
  proof (elim disjE)
    assume "u = n"
    with topo_list_edge_later[OF t] e have "n \<in> set ys" by simp
    with d show ?thesis by simp
  next
    assume "u \<in> set ys"
    then obtain ys1 ys2 where ys: "ys = ys1 @ u # ys2" by (auto simp: in_set_conv_decomp)
    with t have "topo_list g ((xs @ n # ys1) @ u # ys2)" by simp
    from topo_list_edge_later[OF this e] have "n \<in> set ys2" .
    with d show ?thesis by (simp add: ys)
  qed
qed

lemma topo_list_preds_before:
  assumes "topo_list g (xs @ ns)" and "wf_graph g" and "set (nodes g) \<subseteq> set (xs @ ns)"
  shows "preds_before g (set xs) ns"
  using assms
proof (induction ns arbitrary: xs)
  case Nil
  show ?case by simp
next
  case (Cons n ns)
  from topo_list_preds_earlier[OF Cons.prems] have a: "set (IncomingEdges g n) \<subseteq> set xs" .
  from Cons.IH[of "xs @ [n]"] Cons.prems have "preds_before g (set (xs @ [n])) ns" by simp
  with a show ?case by simp
qed

lemma dependantLevelLoop_returns:
  "set ps \<subseteq> dom lvls \<Longrightarrow> \<exists>d. dependantLevelLoop lvls ps d0 = Inr d"
  by (induction ps arbitrary: d0) auto

lemma dependantLevelLoop_bounds:
  "dependantLevelLoop lvls ps d0 = Inr d \<Longrightarrow>
     d0 \<le> d \<and> (\<forall>p \<in> set ps. \<exists>l. lvls p = Some l \<and> l \<le> d) \<and>
     (d = d0 \<or> (\<exists>p \<in> set ps. lvls p = Some d))"
proof (induction ps arbitrary: d0)
  case Nil
  then show ?case by simp
next
  case (Cons p ps)
  from Cons.prems obtain l where l: "lvls p = Some l"
    and r: "dependantLevelLoop lvls ps (if l > d0 then l else d0) = Inr d"
    by (auto split: option.splits)
  from Cons.IH[OF r] l show ?case by (auto split: if_splits)
qed

lemma findLayer_result:
  "0 \<le> i \<Longrightarrow> findLayer w lyrs i = -1 \<or>
     (i \<le> findLayer w lyrs i \<and> findLayer w lyrs i < int (length lyrs) \<and>
      int (length (lyrs ! nat (findLayer w lyrs i))) < w)"
proof (induction w lyrs i rule: findLayer.induct)
  case (1 w lyrs i)
  show ?case
  proof (cases "i < int (length lyrs)")
    case False
    then show ?thesis by (simp add: findLayer.simps[of w lyrs i])
  next
    case in_range: True
    show ?thesis
    proof (cases "int (length (lyrs ! nat i)) < w")
      case True
      with in_range show ?thesis by (simp add: findLayer.simps[of w lyrs i])
    next
      case False
      with in_range "1.IH" "1.prems" have
        "findLayer w lyrs (i + 1) = -1 \<or>
         (i + 1 \<le> findLayer w lyrs (i + 1) \<and> findLayer w lyrs (i + 1) < int (length lyrs) \<and>
          int (length (lyrs ! nat (findLayer w lyrs (i + 1)))) < w)"
        by simp
      moreover have "findLayer w lyrs i = findLayer w lyrs (i + 1)"
        using in_range False by (simp add: findLayer.simps[of w lyrs i])
      ultimately show ?thesis by auto
    qed
  qed
qed

lemma assignLayer_cases:
  assumes a: "assignLayer w lyrs d n = (lyrs', l)" and d: "-1 \<le> d"
  shows "\<exists>base. (base = lyrs \<or> base = lyrs @ [[]]) \<and> 0 \<le> l \<and> nat l < length base \<and>
           lyrs' = base[nat l := base ! nat l @ [n]] \<and>
           (1 \<le> w \<longrightarrow> int (length (base ! nat l)) < w) \<and>
           (d < int (length lyrs) \<longrightarrow> d < l)"
proof -
  let ?f = "findLayer w lyrs (d + 1)"
  show ?thesis
  proof (cases "d < int (length lyrs) - 1 \<and> ?f \<noteq> -1")
    case True
    from d have "0 \<le> d + 1" by simp
    from findLayer_result[OF this, of w lyrs] True have
      f: "d + 1 \<le> ?f" "?f < int (length lyrs)" "int (length (lyrs ! nat ?f)) < w"
      by auto
    from a True have "l = ?f" and "lyrs' = lyrs[nat ?f := lyrs ! nat ?f @ [n]]"
      by (auto simp: assignLayer_def Let_def)
    with f d show ?thesis by (intro exI[of _ lyrs]) auto
  next
    case False
    with a have l: "l = int (length lyrs)"
      and l': "lyrs' = (lyrs @ [[]])[nat l := (lyrs @ [[]]) ! nat l @ [n]]"
      by (auto simp: assignLayer_def Let_def)
    show ?thesis
      by (intro exI[of _ "lyrs @ [[]]"]) (use l l' in \<open>auto simp: nth_append\<close>)
  qed
qed

lemma assignLayer_widths:
  assumes a: "assignLayer w lyrs d n = (lyrs', l)" and d: "-1 \<le> d" and w: "1 \<le> w"
    and old: "\<forall>x \<in> set lyrs. int (length x) \<le> w"
  shows "\<forall>x \<in> set lyrs'. int (length x) \<le> w"
proof
  fix x assume x: "x \<in> set lyrs'"
  from assignLayer_cases[OF a d] w obtain base where
    b: "base = lyrs \<or> base = lyrs @ [[]]" "nat l < length base"
       "lyrs' = base[nat l := base ! nat l @ [n]]" "int (length (base ! nat l)) < w"
    by blast
  from b(1) old w have ob: "\<forall>y \<in> set base. int (length y) \<le> w" by auto
  from x b(3) have "x = base ! nat l @ [n] \<or> x \<in> set base"
    using set_update_subset_insert[of base "nat l" "base ! nat l @ [n]"] by auto
  with ob b(4) show "int (length x) \<le> w" by auto
qed

lemma assignLayer_places:
  assumes a: "assignLayer w lyrs d n = (lyrs', l)" and d: "-1 \<le> d"
  shows "0 \<le> l" and "l < int (length lyrs')" and "n \<in> set (lyrs' ! nat l)"
    and "length lyrs \<le> length lyrs'"
    and "\<And>i. i < length lyrs \<Longrightarrow> set (lyrs ! i) \<subseteq> set (lyrs' ! i)"
    and "d < int (length lyrs) \<Longrightarrow> d < l"
proof -
  from assignLayer_cases[OF a d] obtain base where
    b: "base = lyrs \<or> base = lyrs @ [[]]" "0 \<le> l" "nat l < length base"
       "lyrs' = base[nat l := base ! nat l @ [n]]" "d < int (length lyrs) \<longrightarrow> d < l"
    by blast
  show "0 \<le> l" by (rule b(2))
  show "l < int (length lyrs')" using b(2,3,4) by simp
  show "n \<in> set (lyrs' ! nat l)" using b(3,4) by simp
  show "length lyrs \<le> length lyrs'" using b(1,4) by auto
  show "d < l" if "d < int (length lyrs)" using that b(5) by simp
  show "set (lyrs ! i) \<subseteq> set (lyrs' ! i)" if i: "i < length lyrs" for i
  proof -
    from b(1) i have bi: "base ! i = lyrs ! i" and il: "i < length base"
      by (auto simp: nth_append)
    show ?thesis
    proof (cases "i = nat l")
      case True
      with b(3,4) bi show ?thesis by auto
    next
      case False
      with b(4) bi show ?thesis by simp
    qed
  qed
qed

lemma layering_inv_step:
  assumes inv: "layering_inv reduced w lyrs lvls" and w: "1 \<le> w"
    and fresh: "lvls n = None" and noloop: "(n, n) \<notin> set (edges reduced)"
    and preds: "set (IncomingEdges reduced n) \<subseteq> dom lvls"
    and dl: "dependantLevelLoop lvls (IncomingEdges reduced n) (-1) = Inr d"
    and a: "assignLayer w lyrs d n = (lyrs', l)"
  shows "layering_inv reduced w lyrs' (lvls(n \<mapsto> l))"
proof -
  note db = dependantLevelLoop_bounds[OF dl]
  from db have d: "-1 \<le> d" by simp
  have dlt: "d < int (length lyrs)"
  proof -
    from db have "d = -1 \<or> (\<exists>p. lvls p = Some d)" by auto
    with inv show ?thesis by (auto simp: layering_inv_def)
  qed
  note pl = assignLayer_places[OF a d]
  have widths: "\<forall>x \<in> set lyrs'. int (length x) \<le> w"
    using assignLayer_widths[OF a d w] inv by (simp add: layering_inv_def)
  have members: "0 \<le> k \<and> k < int (length lyrs') \<and> m \<in> set (lyrs' ! nat k)"
    if "(lvls(n \<mapsto> l)) m = Some k" for m k
  proof (cases "m = n")
    case True
    with that pl(1,2,3) show ?thesis by simp
  next
    case False
    with that have "lvls m = Some k" by simp
    with inv have o: "0 \<le> k" "k < int (length lyrs)" "m \<in> set (lyrs ! nat k)"
      by (auto simp: layering_inv_def)
    from o(1,2) have "nat k < length lyrs" by simp
    from pl(5)[OF this] o pl(4) show ?thesis by auto
  qed
  have order: "\<exists>i j. (lvls(n \<mapsto> l)) u = Some i \<and> (lvls(n \<mapsto> l)) v = Some j \<and> i < j"
    if e: "(u, v) \<in> set (edges reduced)" and v: "v \<in> dom (lvls(n \<mapsto> l))" for u v
  proof (cases "v = n")
    case True
    with e have "u \<in> set (IncomingEdges reduced n)" by (simp add: in_IncomingEdges)
    with db obtain i where i: "lvls u = Some i" "i \<le> d" by blast
    from e True noloop have "u \<noteq> n" by auto
    with i pl(6)[OF dlt] True show ?thesis by simp
  next
    case False
    with v have "v \<in> dom lvls" by simp
    with inv e obtain i j where ij: "lvls u = Some i" "lvls v = Some j" "i < j"
      unfolding layering_inv_def by blast
    from ij(1) fresh have "u \<noteq> n" by auto
    with ij False show ?thesis by simp
  qed
  from widths members order show ?thesis unfolding layering_inv_def by blast
qed

lemma sortLoop_levels_frame:
  "sortLoop reduced w ns lyrs lvls = (e, lyrs', lvls') \<Longrightarrow> lvls k = Some x \<Longrightarrow> lvls' k = Some x"
proof (induction ns arbitrary: lyrs lvls)
  case Nil
  then show ?case by simp
next
  case (Cons n ns)
  show ?case
  proof (cases "lvls n")
    case (Some l)
    with Cons.prems(1) have "sortLoop reduced w ns lyrs lvls = (e, lyrs', lvls')" by simp
    from Cons.IH[OF this Cons.prems(2)] show ?thesis .
  next
    case None
    show ?thesis
    proof (cases "dependantLevelLoop lvls (IncomingEdges reduced n) (-1)")
      case (Inl err)
      with None Cons.prems show ?thesis by simp
    next
      case (Inr d)
      obtain lyrs1 l where a: "assignLayer w lyrs d n = (lyrs1, l)"
        by (cases "assignLayer w lyrs d n")
      with None Inr Cons.prems(1) have
        r: "sortLoop reduced w ns lyrs1 (lvls(n \<mapsto> l)) = (e, lyrs', lvls')" by simp
      from None Cons.prems(2) have "k \<noteq> n" by auto
      with Cons.prems(2) have "(lvls(n \<mapsto> l)) k = Some x" by simp
      from Cons.IH[OF r this] show ?thesis .
    qed
  qed
qed

lemma sortLoop_succeeds:
  assumes "preds_before reduced seen ns" and "seen \<subseteq> dom lvls"
  shows "\<exists>lyrs' lvls'. sortLoop reduced w ns lyrs lvls = (None, lyrs', lvls')"
  using assms
proof (induction ns arbitrary: seen lyrs lvls)
  case Nil
  show ?case by simp
next
  case (Cons n ns)
  from Cons.prems have p: "set (IncomingEdges reduced n) \<subseteq> dom lvls"
    and rest: "preds_before reduced (insert n seen) ns" by auto
  show ?case
  proof (cases "lvls n")
    case (Some l)
    with Cons.prems(2) have "insert n seen \<subseteq> dom lvls" by auto
    from Cons.IH[OF rest this] Some show ?thesis by simp
  next
    case None
    from dependantLevelLoop_returns[OF p] obtain d where
      d: "dependantLevelLoop lvls (IncomingEdges reduced n) (-1) = Inr d" by blast
    obtain lyrs1 l where a: "assignLayer w lyrs d n = (lyrs1, l)" by (cases "assignLayer w lyrs d n")
    from Cons.prems(2) have "insert n seen \<subseteq> dom (lvls(n \<mapsto> l))" by auto
    from Cons.IH[OF rest this, of lyrs1] obtain lyrs' lvls' where
      "sortLoop reduced w ns lyrs1 (lvls(n \<mapsto> l)) = (None, lyrs', lvls')" by blast
    with None d a show ?thesis by simp
  qed
qed

lemma sortLoop_invariant:
  assumes "sortLoop reduced w ns lyrs lvls = (None, lyrs', lvls')"
    and "preds_before reduced seen ns" and "seen \<subseteq> dom lvls"
    and "layering_inv reduced w lyrs lvls" and "1 \<le> w"
    and "\<And>n. (n, n) \<notin> set (edges reduced)"
  shows "layering_inv reduced w lyrs' lvls' \<and> set ns \<subseteq> dom lvls'"
  using assms(1-4)
proof (induction ns arbitrary: seen lyrs lvls)
  case Nil
  then show ?case by simp
next
  case (Cons n ns)
  from Cons.prems(2) have p: "set (IncomingEdges reduced n) \<subseteq> seen"
    and rest: "preds_before reduced (insert n seen) ns" by auto
  show ?case
  proof (cases "lvls n")
    case (Some l)
    with Cons.prems(1) have r: "sortLoop reduced w ns lyrs lvls = (None, lyrs', lvls')" by simp
    from Some Cons.prems(3) have s: "insert n seen \<subseteq> dom lvls" by auto
    from Cons.IH[OF r rest s Cons.prems(4)] have
      i: "layering_inv reduced w lyrs' lvls'" "set ns \<subseteq> dom lvls'" by simp_all
    from sortLoop_levels_frame[OF r Some] have "n \<in> dom lvls'" by auto
    with i show ?thesis by simp
  next
    case None
    from p Cons.prems(3) have pd: "set (IncomingEdges reduced n) \<subseteq> dom lvls" by auto
    from dependantLevelLoop_returns[OF pd] obtain d where
      d: "dependantLevelLoop lvls (IncomingEdges reduced n) (-1) = Inr d" by blast
    obtain lyrs1 l where a: "assignLayer w lyrs d n = (lyrs1, l)" by (cases "assignLayer w lyrs d n")
    from Cons.prems(1) None d a have
      r: "sortLoop reduced w ns lyrs1 (lvls(n \<mapsto> l)) = (None, lyrs', lvls')" by simp
    from Cons.prems(3) have s: "insert n seen \<subseteq> dom (lvls(n \<mapsto> l))" by auto
    have inv1: "layering_inv reduced w lyrs1 (lvls(n \<mapsto> l))"
      by (rule layering_inv_step[OF Cons.prems(4) assms(5) None assms(6) pd d a])
    from Cons.IH[OF r rest s inv1] have
      i: "layering_inv reduced w lyrs' lvls'" "set ns \<subseteq> dom lvls'" by simp_all
    from sortLoop_levels_frame[OF r, of n l] have "n \<in> dom lvls'" by auto
    with i show ?thesis by simp
  qed
qed

lemma eventSortLoop_sortLoop:
  "sortLoop reduced w ns lyrs lvls = (e, lyrs', lvls') \<Longrightarrow>
     \<exists>m'. eventSortLoop reduced w ns lyrs lvls m = (e, lyrs', lvls', m')"
proof (induction ns arbitrary: lyrs lvls m)
  case Nil
  then show ?case by simp
next
  case (Cons n ns)
  show ?case
  proof (cases "lvls n")
    case (Some l)
    with Cons.prems have "sortLoop reduced w ns lyrs lvls = (e, lyrs', lvls')" by simp
    from Cons.IH[OF this, of m] Some show ?thesis by simp
  next
    case None
    show ?thesis
    proof (cases "dependantLevelLoop lvls (IncomingEdges reduced n) (-1)")
      case (Inl err)
      with None Cons.prems show ?thesis by simp
    next
      case (Inr d)
      obtain lyrs1 l where a: "assignLayer w lyrs d n = (lyrs1, l)"
        by (cases "assignLayer w lyrs d n")
      with None Inr Cons.prems have
        r: "sortLoop reduced w ns lyrs1 (lvls(n \<mapsto> l)) = (e, lyrs', lvls')" by simp
      from Cons.IH[OF r, of "if m = -1 \<or> m < l then l else m"] obtain m' where
        "eventSortLoop reduced w ns lyrs1 (lvls(n \<mapsto> l)) (if m = -1 \<or> m < l then l else m)
           = (e, lyrs', lvls', m')" by blast
      with None Inr a show ?thesis by simp
    qed
  qed
qed

lemma origSortLoop_sortLoop:
  assumes "sortLoop reduced w ns lyrs lvls = (e, lyrs', lvls')"
    and "distinct ns" and "set ns \<inter> dom lvls = {}"
  shows "origSortLoop reduced w ns lyrs lvls = (case e of None \<Rightarrow> Inr lyrs' | Some err \<Rightarrow> Inl err)"
  using assms
proof (induction ns arbitrary: lyrs lvls)
  case Nil
  then show ?case by auto
next
  case (Cons n ns)
  from Cons.prems(3) have None: "lvls n = None" by auto
  show ?case
  proof (cases "dependantLevelLoop lvls (IncomingEdges reduced n) (-1)")
    case (Inl err)
    with None Cons.prems(1) show ?thesis by auto
  next
    case (Inr d)
    obtain lyrs1 l where a: "assignLayer w lyrs d n = (lyrs1, l)"
      by (cases "assignLayer w lyrs d n")
    with None Inr Cons.prems(1) have
      r: "sortLoop reduced w ns lyrs1 (lvls(n \<mapsto> l)) = (e, lyrs', lvls')" by simp
    from Cons.prems(2,3) have "set ns \<inter> dom (lvls(n \<mapsto> l)) = {}" by auto
    moreover from Cons.prems(2) have "distinct ns" by simp
    ultimately have "origSortLoop reduced w ns lyrs1 (lvls(n \<mapsto> l)) =
        (case e of None \<Rightarrow> Inr lyrs' | Some err \<Rightarrow> Inl err)"
      using Cons.IH[OF r] by blast
    with Inr a show ?thesis by simp
  qed
qed

lemma Sort_result:
  assumes "RemoveTransitives (Copy (graph s)) = Some (err, reduced)"
    and "DFSSort reduced = Some (Inr order)"
    and "sortLoop reduced (width s) order (layers s) (levels s) = (e, lyrs', lvls')"
  shows "Sort s = Some (case e of
            Some err \<Rightarrow> (Inl err, s\<lparr>levels := lvls'\<rparr>)
          | None \<Rightarrow> (Inr lyrs', s\<lparr>levels := lvls', level := level s, layers := lyrs'\<rparr>))"
  using assms by (simp add: Sort_def Let_def split: option.splits)

lemma EventSort_result:
  assumes "RemoveTransitives (Copy (graph s)) = Some (err, reduced)"
    and "DFSSort reduced = Some (Inr order)"
    and "eventSortLoop reduced (width s) order (layers s) (levels s) (-1) = (e, lyrs', lvls', m)"
  shows "EventSort s = Some (case e of
            Some err \<Rightarrow> (Inl err, s\<lparr>levels := lvls'\<rparr>)
          | None \<Rightarrow> (Inr lyrs', s\<lparr>level := m, layers := lyrs', levels := lvls'\<rparr>))"
  using assms by (simp add: EventSort_def split: option.splits)

lemma OrigSort_result:
  assumes "RemoveTransitives (Copy (graph s)) = Some (err, reduced)"
    and "DFSSort reduced = Some (Inr order)"
  shows "OrigSort s = Some (origSortLoop reduced (width s) order [] Map.empty)"
  using assms by (simp add: OrigSort_def)

lemma sorts_on_cycle:
  assumes "RemoveTransitives (Copy (graph s)) = Some (err, reduced)"
    and "DFSSort reduced = Some (Inl e)"
  shows "Sort s = Some (Inl e, s)" and "EventSort s = Some (Inl e, s)"
    and "OrigSort s = Some (Inl e)"
  using assms by (simp_all add: Sort_def EventSort_def OrigSort_def)

lemma reduce_and_sort_returns:
  "\<exists>err reduced r. RemoveTransitives (Copy g) = Some (err, reduced) \<and> DFSSort reduced = Some r"
  using RemoveTransitives_returns[of "Copy g"] DFSSort_returns by fastforce

lemma reduce_and_sort_dag:
  assumes wf: "wf_graph g" and ac: "acyclic (set (edges g))"
  shows "\<exists>reduced order. RemoveTransitives (Copy g) = Some (None, reduced) \<and>
           DFSSort reduced = Some (Inr order) \<and> wf_graph reduced \<and>
           acyclic (set (edges reduced)) \<and> nodes reduced = nodes g \<and>
           set order = set (nodes g) \<and> distinct order \<and> preds_before reduced {} order"
proof -
  from RemoveTransitives_dag[OF ac] obtain reduced where
    r: "RemoveTransitives (Copy g) = Some (None, reduced)" by (auto simp: Copy_def)
  then have sh: "shrinks g reduced" using RemoveTransitives_shrinks by (fastforce simp: Copy_def)
  note wfr = shrinks_wf[OF sh wf] and acr = shrinks_acyclic[OF sh ac]
  from DFSSort_acyclic[OF acr] obtain order where o: "DFSSort reduced = Some (Inr order)" by blast
  note t = DFSSort_success(1)[OF o] and n = DFSSort_order_nodes[OF wfr o]
  from sh have nn: "nodes reduced = nodes g" by (simp add: shrinks_def)
  have "preds_before reduced (set []) order"
    by (rule topo_list_preds_before) (use t wfr n in simp_all)
  with r o wfr acr nn n topo_list_distinct[OF t] show ?thesis by auto
qed

lemma acyclic_no_loop: "acyclic E \<Longrightarrow> (n, n) \<notin> E"
  by (auto simp: acyclic_def)

lemma layering_inv_empty: "layering_inv reduced w [] Map.empty"
  by (simp add: layering_inv_def)

text \<open>
  The \<open>level\<close> field across a call of \<open>Sort\<close>: the variable stored back at the end is the
  one read before the loop, which the loop body never assigns.
\<close>

lemma Sort_keeps_level:
  "\<exists>r s'. Sort s = Some (r, s') \<and> level s' = level s"
proof -
  from reduce_and_sort_returns[of "graph s"] obtain err reduced r where
    rt: "RemoveTransitives (Copy (graph s)) = Some (err, reduced)"
    and d: "DFSSort reduced = Some r" by auto
  show ?thesis
  proof (cases r)
    case (Inl e)
    with sorts_on_cycle(1)[OF rt] d show ?thesis by simp
  next
    case (Inr order)
    obtain e lyrs lvls where
      l: "sortLoop reduced (width s) order (layers s) (levels s) = (e, lyrs, lvls)"
      by (cases "sortLoop reduced (width s) order (layers s) (levels s)")
    from Sort_result[OF rt d[unfolded Inr] l] show ?thesis by (cases e) simp_all
  qed
qed

text \<open>
  New sorters: the three loops over one topological order. The order in which the incoming
  edges are handed out does not matter, so the reduced graphs need only have the same edges.
\<close>

lemma dependantLevelLoop_fails:
  "\<not> set ps \<subseteq> dom lvls \<Longrightarrow> dependantLevelLoop lvls ps d = Inl ErrDependencyOrder"
  by (induction ps arbitrary: d) (auto split: option.splits)

lemma dependantLevelLoop_set:
  assumes "set ps = set qs"
  shows "dependantLevelLoop lvls ps d = dependantLevelLoop lvls qs d"
proof (cases "set ps \<subseteq> dom lvls")
  case False
  with assms dependantLevelLoop_fails[of ps lvls d] dependantLevelLoop_fails[of qs lvls d]
  show ?thesis by simp
next
  case True
  from dependantLevelLoop_returns[OF True] obtain r where
    r: "dependantLevelLoop lvls ps d = Inr r" by blast
  from True assms have "set qs \<subseteq> dom lvls" by simp
  from dependantLevelLoop_returns[OF this] obtain r' where
    r': "dependantLevelLoop lvls qs d = Inr r'" by blast
  note b = dependantLevelLoop_bounds[OF r] and b' = dependantLevelLoop_bounds[OF r']
  have "r \<le> r'"
  proof -
    from b have "r = d \<or> (\<exists>p \<in> set ps. lvls p = Some r)" by simp
    then show ?thesis
    proof
      assume "r = d" with b' show ?thesis by simp
    next
      assume "\<exists>p \<in> set ps. lvls p = Some r"
      then obtain p where "p \<in> set qs" "lvls p = Some r" using assms by auto
      with b' show ?thesis by fastforce
    qed
  qed
  moreover have "r' \<le> r"
  proof -
    from b' have "r' = d \<or> (\<exists>p \<in> set qs. lvls p = Some r')" by simp
    then show ?thesis
    proof
      assume "r' = d" with b show ?thesis by simp
    next
      assume "\<exists>p \<in> set qs. lvls p = Some r'"
      then obtain p where "p \<in> set ps" "lvls p = Some r'" using assms by auto
      with b show ?thesis by fastforce
    qed
  qed
  ultimately show ?thesis using r r' by simp
qed

lemma IncomingEdges_set:
  "set (edges r1) = set (edges r2) \<Longrightarrow> set (IncomingEdges r1 n) = set (IncomingEdges r2 n)"
  by (auto simp: in_IncomingEdges)

lemma sortLoop_same_edges:
  assumes "set (edges r1) = set (edges r2)"
  shows "sortLoop r1 w ns lyrs lvls = sortLoop r2 w ns lyrs lvls"
proof (induction ns arbitrary: lyrs lvls)
  case Nil
  show ?case by simp
next
  case (Cons n ns)
  have dl: "dependantLevelLoop lvls (IncomingEdges r1 n) (-1) =
        dependantLevelLoop lvls (IncomingEdges r2 n) (-1)"
    by (rule dependantLevelLoop_set) (rule IncomingEdges_set[OF assms])
  show ?case
  proof (cases "lvls n")
    case (Some l)
    with Cons.IH show ?thesis by simp
  next
    case None
    show ?thesis
    proof (cases "dependantLevelLoop lvls (IncomingEdges r2 n) (-1)")
      case (Inl err)
      with None dl show ?thesis by simp
    next
      case (Inr d)
      obtain lyrs1 l where a: "assignLayer w lyrs d n = (lyrs1, l)"
        by (cases "assignLayer w lyrs d n")
      from Cons.IH[of lyrs1 "lvls(n \<mapsto> l)"] None Inr dl a show ?thesis
        by (simp del: fun_upd_apply)
    qed
  qed
qed

lemma fresh_loops_agree:
  assumes d: "distinct order"
    and e12: "set (edges r1) = set (edges r2)" and e32: "set (edges r3) = set (edges r2)"
    and l: "sortLoop r1 w order [] Map.empty = (e, lyrs, lvls)"
  shows "origSortLoop r2 w order [] Map.empty = (case e of None \<Rightarrow> Inr lyrs | Some err \<Rightarrow> Inl err)"
    and "\<exists>m. eventSortLoop r3 w order [] Map.empty (-1) = (e, lyrs, lvls, m)"
proof -
  from l sortLoop_same_edges[OF e12] have l2: "sortLoop r2 w order [] Map.empty = (e, lyrs, lvls)"
    by simp
  from origSortLoop_sortLoop[OF l2 d] show
    "origSortLoop r2 w order [] Map.empty = (case e of None \<Rightarrow> Inr lyrs | Some err \<Rightarrow> Inl err)"
    by simp
  from l2 sortLoop_same_edges[OF e32] have "sortLoop r3 w order [] Map.empty = (e, lyrs, lvls)"
    by simp
  from eventSortLoop_sortLoop[OF this] show
    "\<exists>m. eventSortLoop r3 w order [] Map.empty (-1) = (e, lyrs, lvls, m)" .
qed

lemma fresh_sorters_agree_orders:
  assumes rt1: "RemoveTransitives (Copy g1) = Some (e1, r1)"
    and rt2: "RemoveTransitives (Copy g2) = Some (e2, r2)"
    and rt3: "RemoveTransitives (Copy g3) = Some (e3, r3)"
    and e12: "set (edges r1) = set (edges r2)" and e32: "set (edges r3) = set (edges r2)"
    and o12: "DFSSort r1 = DFSSort r2" and o32: "DFSSort r3 = DFSSort r2"
  shows "map_option fst (Sort (NewCoffmanGrahamSorter g1 w)) =
           OrigSort (NewCoffmanGrahamSorter g2 w) \<and>
         map_option fst (EventSort (NewOptimizedCoffmanGrahamSorter g3 w)) =
           OrigSort (NewCoffmanGrahamSorter g2 w) \<and>
         OrigSort (NewCoffmanGrahamSorter g2 w) \<noteq> None"
proof -
  let ?s1 = "NewCoffmanGrahamSorter g1 w" and ?s2 = "NewCoffmanGrahamSorter g2 w"
    and ?s3 = "NewOptimizedCoffmanGrahamSorter g3 w"
  have s1: "graph ?s1 = g1" "width ?s1 = w" "layers ?s1 = []" "levels ?s1 = Map.empty"
    and s2: "graph ?s2 = g2" "width ?s2 = w"
    and s3: "graph ?s3 = g3" "width ?s3 = w" "layers ?s3 = []" "levels ?s3 = Map.empty"
    by (simp_all add: NewCoffmanGrahamSorter_def NewOptimizedCoffmanGrahamSorter_def)
  from DFSSort_returns[of r2] obtain r where d2: "DFSSort r2 = Some r" by auto
  with o12 o32 have d1: "DFSSort r1 = Some r" and d3: "DFSSort r3 = Some r" by simp_all
  show ?thesis
  proof (cases r)
    case (Inl err)
    from sorts_on_cycle(1)[of ?s1, unfolded s1, OF rt1 d1[unfolded Inl]]
         sorts_on_cycle(3)[of ?s2, unfolded s2, OF rt2 d2[unfolded Inl]]
         sorts_on_cycle(2)[of ?s3, unfolded s3, OF rt3 d3[unfolded Inl]]
    show ?thesis by simp
  next
    case (Inr order)
    note o1 = d1[unfolded Inr] and o2 = d2[unfolded Inr] and o3 = d3[unfolded Inr]
    obtain e lyrs lvls where l: "sortLoop r1 w order [] Map.empty = (e, lyrs, lvls)"
      by (cases "sortLoop r1 w order [] Map.empty")
    from topo_list_distinct[OF DFSSort_success(1)[OF o1]] have dist: "distinct order" .
    note a = fresh_loops_agree[OF dist e12 e32 l]
    from a(2) obtain m where el: "eventSortLoop r3 w order [] Map.empty (-1) = (e, lyrs, lvls, m)"
      by blast
    have sort: "Sort ?s1 = Some (case e of
            Some err \<Rightarrow> (Inl err, ?s1\<lparr>levels := lvls\<rparr>)
          | None \<Rightarrow> (Inr lyrs, ?s1\<lparr>levels := lvls, level := level ?s1, layers := lyrs\<rparr>))"
      by (rule Sort_result[where order = order and reduced = r1 and err = e1])
         (simp_all add: s1 rt1 o1 l)
    have event: "EventSort ?s3 = Some (case e of
            Some err \<Rightarrow> (Inl err, ?s3\<lparr>levels := lvls\<rparr>)
          | None \<Rightarrow> (Inr lyrs, ?s3\<lparr>level := m, layers := lyrs, levels := lvls\<rparr>))"
      by (rule EventSort_result[where order = order and reduced = r3 and err = e3])
         (simp_all add: s3 rt3 o3 el)
    have orig: "OrigSort ?s2 = Some (case e of None \<Rightarrow> Inr lyrs | Some err \<Rightarrow> Inl err)"
      using OrigSort_result[of ?s2, unfolded s2, OF rt2 o2] a(1) by simp
    from sort event orig show ?thesis by (cases e) simp_all
  qed
qed

lemma fresh_sorters_agree_same_listing:
  "map_option fst (Sort (NewCoffmanGrahamSorter g w)) = OrigSort (NewCoffmanGrahamSorter g w) \<and>
   map_option fst (EventSort (NewOptimizedCoffmanGrahamSorter g w)) =
     OrigSort (NewCoffmanGrahamSorter g w) \<and>
   OrigSort (NewCoffmanGrahamSorter g w) \<noteq> None"
proof -
  from RemoveTransitives_returns[of "Copy g"] obtain err reduced where
    rt: "RemoveTransitives (Copy g) = Some (err, reduced)" by blast
  from fresh_sorters_agree_orders[OF rt rt rt refl refl refl refl] show ?thesis .
qed

section \<open>The example graphs\<close>

lemma acyclic_ascending:
  fixes E :: "(nat \<times> nat) set"
  assumes "\<And>a b. (a, b) \<in> E \<Longrightarrow> a < b"
  shows "acyclic E"
  by (rule acyclicI_order[where f = "\<lambda>x. - int x"]) (use assms in force)

lemma wf_scenario_graph: "wf_graph scenario_graph"
  by (simp add: wf_graph_def scenario_graph_def)

lemma acyclic_scenario_graph: "acyclic (set (edges scenario_graph))"
  by (rule acyclic_ascending) (auto simp: scenario_graph_def)

lemma scenario_reduced:
  "RemoveTransitives scenario_graph = Some (None, \<lparr>nodes = [1, 2, 3, 4], edges = [(1, 2), (2, 3)]\<rparr>)"
  unfolding scenario_graph_def by code_simp

lemma scenario_sorted: "DFSSort scenario_graph = Some (Inr [4, 1, 2, 3])"
  unfolding scenario_graph_def by code_simp

lemma scenario_layers: "CoffmanGrahamSort scenario_graph 2 = Some (Inr [[4, 1], [2], [3]])"
  unfolding scenario_graph_def by code_simp

lemma cycle_in_cycle_graph: "(1, 1) \<in> (set (edges cycle_graph))\<^sup>+"
  unfolding cycle_graph_def by code_simp

lemma sorted_once_level: "levels sorted_once 1 = Some 0"
  unfolding sorted_once_def scenario_graph_def by code_simp





lemma diamond_incoming:
  "IncomingEdges diamond_a 4 = [2, 3] \<and> IncomingEdges diamond_b 4 = [3, 2]"
  unfolding diamond_a_def diamond_b_def by code_simp

section \<open>The claims\<close>

text \<open>
  C1: for every directed acyclic graph (a graph that satisfies the invariant of the data
  model and has no cycle), \<open>DFSSort\<close> returns a sequence without repetition whose elements
  are exactly the nodes of the graph, and for every edge \<open>(u, v)\<close> the node \<open>u\<close> stands at an
  earlier position than \<open>v\<close>.
\<close>

theorem DFSSort_dag:
  assumes "wf_graph g" and "acyclic (set (edges g))"
  shows "\<exists>ord. DFSSort g = Some (Inr ord) \<and> distinct ord \<and> set ord = set (Nodes g) \<and>
           (\<forall>(u, v) \<in> set (edges g). \<exists>i j. i < j \<and> j < length ord \<and> ord ! i = u \<and> ord ! j = v)"
proof -
  from DFSSort_acyclic[OF assms(2)] obtain ord where ok: "DFSSort g = Some (Inr ord)" by blast
  note t = DFSSort_success[OF ok]
  have s: "set ord = set (nodes g)"
    using t(2) t(3) wf_graph_universe[OF assms(1)] by auto
  have "\<exists>i j. i < j \<and> j < length ord \<and> ord ! i = u \<and> ord ! j = v"
    if "(u, v) \<in> set (edges g)" for u v
  proof -
    from that assms(1) have "u \<in> set ord" by (auto simp: s wf_graph_def)
    from topo_list_positions[OF t(1) this that] show ?thesis .
  qed
  with ok s topo_list_distinct[OF t(1)] show ?thesis by (auto simp: Nodes_def)
qed

theorem DFSSort_dag_witness:
  "wf_graph scenario_graph \<and> acyclic (set (edges scenario_graph)) \<and>
   (\<exists>ord. DFSSort scenario_graph = Some (Inr ord) \<and> distinct ord \<and>
      set ord = set (Nodes scenario_graph) \<and>
      (\<forall>(u, v) \<in> set (edges scenario_graph).
         \<exists>i j. i < j \<and> j < length ord \<and> ord ! i = u \<and> ord ! j = v))"
  using DFSSort_dag[OF wf_scenario_graph acyclic_scenario_graph]
        wf_scenario_graph acyclic_scenario_graph
  by simp

text \<open>
  C2: for every directed acyclic graph and every width of at least 1,
  \<open>CoffmanGrahamSort\<close> succeeds; every returned layer holds at most \<open>width\<close> nodes; and for
  every edge \<open>(u, v)\<close> of the reduced copy, the level recorded for \<open>u\<close> is smaller than the
  level recorded for \<open>v\<close>, each level being the index of the returned layer that holds the
  node.
\<close>

theorem CoffmanGrahamSort_dag:
  assumes wf: "wf_graph g" and ac: "acyclic (set (edges g))" and w: "1 \<le> w"
  shows "\<exists>lyrs s' err reduced.
           CoffmanGrahamSort g w = Some (Inr lyrs) \<and>
           Sort (NewCoffmanGrahamSorter g w) = Some (Inr lyrs, s') \<and>
           RemoveTransitives (Copy g) = Some (err, reduced) \<and>
           (\<forall>layer \<in> set lyrs. int (length layer) \<le> w) \<and>
           (\<forall>(u, v) \<in> set (edges reduced).
              \<exists>i j. levels s' u = Some i \<and> levels s' v = Some j \<and> i < j \<and>
                0 \<le> i \<and> j < int (length lyrs) \<and>
                u \<in> set (lyrs ! nat i) \<and> v \<in> set (lyrs ! nat j))"
proof -
  let ?s = "NewCoffmanGrahamSorter g w"
  have s: "graph ?s = g" "width ?s = w" "layers ?s = []" "levels ?s = Map.empty"
    by (simp_all add: NewCoffmanGrahamSorter_def)
  from reduce_and_sort_dag[OF wf ac] obtain reduced order where
    r: "RemoveTransitives (Copy g) = Some (None, reduced)"
    and o: "DFSSort reduced = Some (Inr order)"
    and wfr: "wf_graph reduced" and acr: "acyclic (set (edges reduced))"
    and n: "set order = set (nodes g)" "nodes reduced = nodes g"
    and pb: "preds_before reduced {} order"
    by blast
  from sortLoop_succeeds[OF pb, of Map.empty w "[]"] obtain lyrs lvls where
    l: "sortLoop reduced w order [] Map.empty = (None, lyrs, lvls)" by auto
  from sortLoop_invariant[OF l pb _ layering_inv_empty w acyclic_no_loop[OF acr]] have
    inv: "layering_inv reduced w lyrs lvls" and dom: "set order \<subseteq> dom lvls" by simp_all
  let ?s' = "?s\<lparr>levels := lvls, level := level ?s, layers := lyrs\<rparr>"
  from Sort_result[of ?s, unfolded s, OF r o l] have res: "Sort ?s = Some (Inr lyrs, ?s')"
    by simp
  have edges_ok: "\<exists>i j. levels ?s' u = Some i \<and> levels ?s' v = Some j \<and> i < j \<and>
                0 \<le> i \<and> j < int (length lyrs) \<and>
                u \<in> set (lyrs ! nat i) \<and> v \<in> set (lyrs ! nat j)"
    if e: "(u, v) \<in> set (edges reduced)" for u v
  proof -
    from wf_graph_targets[OF wfr e] n dom have "v \<in> dom lvls" by auto
    with inv e obtain i j where ij: "lvls u = Some i" "lvls v = Some j" "i < j"
      unfolding layering_inv_def by blast
    with inv have "0 \<le> i" "j < int (length lyrs)" "u \<in> set (lyrs ! nat i)" "v \<in> set (lyrs ! nat j)"
      unfolding layering_inv_def by blast+
    with ij show ?thesis by simp
  qed
  have "\<forall>layer \<in> set lyrs. int (length layer) \<le> w"
    using inv by (simp add: layering_inv_def)
  with res r edges_ok show ?thesis
    unfolding CoffmanGrahamSort_def by (intro exI[of _ lyrs] exI[of _ ?s'] exI[of _ None] exI[of _ reduced]) auto
qed

theorem CoffmanGrahamSort_dag_witness:
  "wf_graph scenario_graph \<and> acyclic (set (edges scenario_graph)) \<and> (1::int) \<le> 2 \<and>
   (\<exists>lyrs s' err reduced.
      CoffmanGrahamSort scenario_graph 2 = Some (Inr lyrs) \<and>
      Sort (NewCoffmanGrahamSorter scenario_graph 2) = Some (Inr lyrs, s') \<and>
      RemoveTransitives (Copy scenario_graph) = Some (err, reduced) \<and>
      (\<forall>layer \<in> set lyrs. int (length layer) \<le> 2) \<and>
      (\<forall>(u, v) \<in> set (edges reduced).
         \<exists>i j. levels s' u = Some i \<and> levels s' v = Some j \<and> i < j \<and>
           0 \<le> i \<and> j < int (length lyrs) \<and>
           u \<in> set (lyrs ! nat i) \<and> v \<in> set (lyrs ! nat j)))"
  using CoffmanGrahamSort_dag[OF wf_scenario_graph acyclic_scenario_graph, of 2]
        wf_scenario_graph acyclic_scenario_graph
  by simp

text \<open>
  C3: when a cycle can be reached from some node of the graph, \<open>DFSSort\<close> fails with the
  cyclic-graph error, and \<open>CoffmanGrahamSorter.Sort\<close> and
  \<open>OptimizedCoffmanGrahamSorter.EventSort\<close> return that error and leave the sorter as it was.
\<close>

theorem cyclic_graph_error:
  assumes "n \<in> set (Nodes (graph s))" and "(n, c) \<in> (set (edges (graph s)))\<^sup>*"
    and "(c, c) \<in> (set (edges (graph s)))\<^sup>+"
  shows "DFSSort (graph s) = Some (Inl ErrCyclicGraph) \<and>
         Sort s = Some (Inl ErrCyclicGraph, s) \<and> EventSort s = Some (Inl ErrCyclicGraph, s)"
proof -
  from DFSSort_cyclic[OF assms] have d: "DFSSort (graph s) = Some (Inl ErrCyclicGraph)" .
  then have rt: "RemoveTransitives (Copy (graph s)) = Some (Some ErrCyclicGraph, graph s)"
    by (simp add: RemoveTransitives_cyclic Copy_def)
  from sorts_on_cycle(1,2)[OF rt d] d show ?thesis by simp
qed

theorem cyclic_graph_error_witness:
  "1 \<in> set (Nodes (graph (NewCoffmanGrahamSorter cycle_graph 1))) \<and>
   (1, 1) \<in> (set (edges (graph (NewCoffmanGrahamSorter cycle_graph 1))))\<^sup>* \<and>
   (1, 1) \<in> (set (edges (graph (NewCoffmanGrahamSorter cycle_graph 1))))\<^sup>+ \<and>
   DFSSort (graph (NewCoffmanGrahamSorter cycle_graph 1)) = Some (Inl ErrCyclicGraph) \<and>
   Sort (NewCoffmanGrahamSorter cycle_graph 1) =
     Some (Inl ErrCyclicGraph, NewCoffmanGrahamSorter cycle_graph 1) \<and>
   EventSort (NewCoffmanGrahamSorter cycle_graph 1) =
     Some (Inl ErrCyclicGraph, NewCoffmanGrahamSorter cycle_graph 1)"
proof -
  let ?s = "NewCoffmanGrahamSorter cycle_graph 1"
  have g: "graph ?s = cycle_graph" by (simp add: NewCoffmanGrahamSorter_def)
  have n: "1 \<in> set (Nodes (graph ?s))" unfolding g by (simp add: Nodes_def cycle_graph_def)
  have r: "(1, 1) \<in> (set (edges (graph ?s)))\<^sup>*" by simp
  have c: "(1, 1) \<in> (set (edges (graph ?s)))\<^sup>+" unfolding g by (rule cycle_in_cycle_graph)
  from cyclic_graph_error[OF n r c] n r c show ?thesis by simp
qed

text \<open>
  C4: take a sorter in any state, in particular one that has already produced a layering,
  and let its graph be replaced by any graph \<open>g'\<close>, in particular one that extends the old
  graph by new nodes and edges. Sorting again, with \<open>Sort\<close> or with \<open>EventSort\<close>, returns, and
  every level recorded before the call is recorded unchanged after it.
\<close>

theorem resort_keeps_levels:
  "(\<exists>r s2. Sort (s1\<lparr>graph := g'\<rparr>) = Some (r, s2) \<and>
      (\<forall>n l. levels s1 n = Some l \<longrightarrow> levels s2 n = Some l)) \<and>
   (\<exists>r s2. EventSort (s1\<lparr>graph := g'\<rparr>) = Some (r, s2) \<and>
      (\<forall>n l. levels s1 n = Some l \<longrightarrow> levels s2 n = Some l))"
proof -
  let ?s = "s1\<lparr>graph := g'\<rparr>"
  from reduce_and_sort_returns[of g'] obtain err reduced r where
    rt: "RemoveTransitives (Copy (graph ?s)) = Some (err, reduced)"
    and d: "DFSSort reduced = Some r" by auto
  show ?thesis
  proof (cases r)
    case (Inl e)
    with sorts_on_cycle(1,2)[OF rt] d show ?thesis by simp
  next
    case (Inr order)
    obtain e lyrs lvls where
      l: "sortLoop reduced (width ?s) order (layers ?s) (levels ?s) = (e, lyrs, lvls)"
      by (cases "sortLoop reduced (width ?s) order (layers ?s) (levels ?s)")
    from eventSortLoop_sortLoop[OF l, of "-1"] obtain m where
      el: "eventSortLoop reduced (width ?s) order (layers ?s) (levels ?s) (-1) = (e, lyrs, lvls, m)"
      by blast
    have fr: "\<forall>n x. levels s1 n = Some x \<longrightarrow> lvls n = Some x"
      using sortLoop_levels_frame[OF l] by simp
    from Sort_result[OF rt d[unfolded Inr] l] EventSort_result[OF rt d[unfolded Inr] el] fr
    show ?thesis by (cases e) simp_all
  qed
qed

theorem resort_keeps_levels_witness:
  "levels sorted_once 1 = Some 0 \<and>
   (\<exists>r s2. Sort (sorted_once\<lparr>graph := extended_graph\<rparr>) = Some (r, s2) \<and> levels s2 1 = Some 0) \<and>
   (\<exists>r s2. EventSort (sorted_once\<lparr>graph := extended_graph\<rparr>) = Some (r, s2) \<and>
      levels s2 1 = Some 0)"
  using resort_keeps_levels[where ?s1.0 = sorted_once and g' = extended_graph] sorted_once_level
  by blast

text \<open>
  C5: \<open>RemoveTransitives\<close> returns, and in the graph it leaves behind a node \<open>a\<close> reaches a
  node \<open>b\<close> if and only if \<open>a\<close> reaches \<open>b\<close> in the graph it was given.
\<close>

theorem RemoveTransitives_preserves_reachability:
  assumes "wf_graph g"
  shows "\<exists>err g'. RemoveTransitives g = Some (err, g') \<and>
           (\<forall>a b. (a, b) \<in> (set (edges g'))\<^sup>* \<longleftrightarrow> (a, b) \<in> (set (edges g))\<^sup>*)"
proof -
  from RemoveTransitives_returns obtain err g' where r: "RemoveTransitives g = Some (err, g')"
    by blast
  from RemoveTransitives_reach[OF assms r] r show ?thesis by simp
qed

theorem RemoveTransitives_preserves_reachability_witness:
  "wf_graph scenario_graph \<and>
   (\<exists>err g'. RemoveTransitives scenario_graph = Some (err, g') \<and>
      (\<forall>a b. (a, b) \<in> (set (edges g'))\<^sup>* \<longleftrightarrow> (a, b) \<in> (set (edges scenario_graph))\<^sup>*))"
  using RemoveTransitives_preserves_reachability[OF wf_scenario_graph] wf_scenario_graph
  by simp

text \<open>
  C6: after \<open>EventGraph.AddEdge(a, b)\<close>, \<open>EventGraph.EdgeExists(a, b)\<close> is true, and the
  wrapped graph holds the edge in the other direction: its \<open>EdgeExists(b, a)\<close> is true.
\<close>

theorem EventGraph_AddEdge_reversed:
  "EventGraph_EdgeExists (EventGraph_AddEdge g a b) a b \<and>
   EdgeExists (directed (EventGraph_AddEdge g a b)) b a"
  by (simp add: EventGraph_EdgeExists_def EventGraph_AddEdge_def EdgeExists_def AddEdge_def)

text \<open>
  C7: for a sorter in any state whose graph is a directed acyclic graph, \<open>Sort\<close> and
  \<open>EventSort\<close> both return layers; in particular neither returns the dependency-order
  error.
\<close>

theorem no_dependency_order_error:
  assumes wf: "wf_graph (graph s)" and ac: "acyclic (set (edges (graph s)))"
  shows "(\<exists>lyrs s'. Sort s = Some (Inr lyrs, s')) \<and> (\<exists>lyrs s'. EventSort s = Some (Inr lyrs, s')) \<and>
         map_option fst (Sort s) \<noteq> Some (Inl ErrDependencyOrder) \<and>
         map_option fst (EventSort s) \<noteq> Some (Inl ErrDependencyOrder)"
proof -
  from reduce_and_sort_dag[OF wf ac] obtain reduced order where
    r: "RemoveTransitives (Copy (graph s)) = Some (None, reduced)"
    and o: "DFSSort reduced = Some (Inr order)"
    and pb: "preds_before reduced {} order"
    by blast
  from sortLoop_succeeds[OF pb, of "levels s" "width s" "layers s"] obtain lyrs lvls where
    l: "sortLoop reduced (width s) order (layers s) (levels s) = (None, lyrs, lvls)" by auto
  from eventSortLoop_sortLoop[OF l, of "-1"] obtain m where
    el: "eventSortLoop reduced (width s) order (layers s) (levels s) (-1) = (None, lyrs, lvls, m)"
    by blast
  from Sort_result[OF r o l] EventSort_result[OF r o el] show ?thesis by simp
qed

theorem no_dependency_order_error_witness:
  "wf_graph (graph (sorted_once\<lparr>graph := extended_graph\<rparr>)) \<and>
   acyclic (set (edges (graph (sorted_once\<lparr>graph := extended_graph\<rparr>)))) \<and>
   (\<exists>lyrs s'. Sort (sorted_once\<lparr>graph := extended_graph\<rparr>) = Some (Inr lyrs, s')) \<and>
   (\<exists>lyrs s'. EventSort (sorted_once\<lparr>graph := extended_graph\<rparr>) = Some (Inr lyrs, s')) \<and>
   map_option fst (Sort (sorted_once\<lparr>graph := extended_graph\<rparr>)) \<noteq> Some (Inl ErrDependencyOrder) \<and>
   map_option fst (EventSort (sorted_once\<lparr>graph := extended_graph\<rparr>)) \<noteq>
     Some (Inl ErrDependencyOrder)"
proof -
  let ?s = "sorted_once\<lparr>graph := extended_graph\<rparr>"
  have wf: "wf_graph (graph ?s)"
    by (simp add: wf_graph_def extended_graph_def AddEdge_def addNode_def scenario_graph_def)
  have ac: "acyclic (set (edges (graph ?s)))"
    by (rule acyclic_ascending)
       (auto simp: extended_graph_def AddEdge_def addNode_def scenario_graph_def)
  from no_dependency_order_error[OF wf ac] wf ac show ?thesis by simp
qed

text \<open>
  C8: that the \<open>level\<close> field after \<open>CoffmanGrahamSorter.Sort\<close> is the layer index of the
  last node processed does not hold on the chain of two nodes with width 1. The call
  returns the layers \<open>[[1], [2]]\<close>; the last node processed is 2, recorded at level 1; and
  the \<open>level\<close> field after the call is 0, the value it had before the call.
\<close>

theorem Sort_level_counterexample:
  "map_option fst (Sort (NewCoffmanGrahamSorter chain_graph 1)) = Some (Inr [[1], [2]]) \<and>
   DFSSort (snd (the (RemoveTransitives (Copy chain_graph)))) = Some (Inr [1, 2]) \<and>
   levels (snd (the (Sort (NewCoffmanGrahamSorter chain_graph 1)))) 2 = Some 1 \<and>
   level (snd (the (Sort (NewCoffmanGrahamSorter chain_graph 1)))) = 0"
  unfolding chain_graph_def by code_simp

text \<open>
  C9: for every directed acyclic graph, \<open>RemoveTransitives\<close> succeeds, succeeds again on
  the graph it left behind, and the second call leaves the same edge set as the first.
\<close>

theorem RemoveTransitives_idempotent:
  assumes "wf_graph g" and "acyclic (set (edges g))"
  shows "\<exists>g1 g2. RemoveTransitives g = Some (None, g1) \<and> RemoveTransitives g1 = Some (None, g2) \<and>
           set (edges g2) = set (edges g1)"
proof -
  from RemoveTransitives_dag[OF assms(2)] obtain g1 where
    r1: "RemoveTransitives g = Some (None, g1)" by blast
  note sh = RemoveTransitives_shrinks[OF r1]
  from RemoveTransitives_dag[OF shrinks_acyclic[OF sh assms(2)]] obtain g2 where
    r2: "RemoveTransitives g1 = Some (None, g2)" by blast
  from RemoveTransitives_success[OF r2] obtain order where
    g2: "g2 = fold (\<lambda>u g'. reduceNode g' u) order g1" by blast
  have "g2 = g1"
    unfolding g2 by (rule fold_reduceNode_idle) (rule RemoveTransitives_clean[OF assms(1) r1])
  with r1 r2 show ?thesis by simp
qed

theorem RemoveTransitives_idempotent_witness:
  "wf_graph scenario_graph \<and> acyclic (set (edges scenario_graph)) \<and>
   (\<exists>g1 g2. RemoveTransitives scenario_graph = Some (None, g1) \<and>
      RemoveTransitives g1 = Some (None, g2) \<and> set (edges g2) = set (edges g1))"
  using RemoveTransitives_idempotent[OF wf_scenario_graph acyclic_scenario_graph]
    wf_scenario_graph acyclic_scenario_graph
  by simp




end
